theory Spec2Isabelle
  imports Complex_Main "HOL-Library.Sublist"
begin

section \<open>HeatMapMaker: the \<open>CSV\<close> class of \<open>heatmapmaker.py\<close>\<close>

text \<open>
  A Python \<open>str\<close> is modelled as a \<open>string\<close>, one \<open>char\<close> per code point, so the
  strings covered are those whose code points are below 256. Exceptions are values of
  the type \<open>error\<close>: a failed \<open>assert\<close> is \<open>AssertionError\<close> (the specification calls it
  MalformedGridError), an index out of range is \<open>IndexError\<close>, and a failed \<open>float(...)\<close>
  or an empty separator given to \<open>str.split\<close> is \<open>ValueError\<close> (the specification calls
  the former NumberFormatError). \<open>TypeError\<close> and \<open>AttributeError\<close> are what an operation
  on an object of the wrong kind raises. Assertions are taken as enabled, as they are
  unless Python runs with \<open>-O\<close>.
\<close>

datatype error = AssertionError | IndexError | ValueError | TypeError | AttributeError

subsection \<open>The built-in operations the class uses\<close>

text \<open>\<open>xs[i]\<close> for an index \<open>i \<ge> 0\<close>: raises \<open>IndexError\<close> out of range.\<close>

definition getitem :: "'a list \<Rightarrow> nat \<Rightarrow> error + 'a" where
  "getitem xs i = (if i < length xs then Inr (xs ! i) else Inl IndexError)"

text \<open>
  A list comprehension \<open>[f(x) for x in xs]\<close> whose element expression may raise:
  the elements are evaluated from left to right and the first exception ends it.
\<close>

fun comprehension :: "('a \<Rightarrow> error + 'b) \<Rightarrow> 'a list \<Rightarrow> error + 'b list" where
  "comprehension f [] = Inr []"
| "comprehension f (x # xs) =
     (case f x of
        Inl e \<Rightarrow> Inl e
      | Inr y \<Rightarrow> (case comprehension f xs of Inl e \<Rightarrow> Inl e | Inr ys \<Rightarrow> Inr (y # ys)))"

text \<open>\<open>enumerate(xs)\<close>: the elements paired with their positions, from 0.\<close>

definition enumerate :: "'a list \<Rightarrow> (nat \<times> 'a) list" where
  "enumerate xs = zip [0..<length xs] xs"

text \<open>
  \<open>str.isspace\<close> on one character: the white space of Unicode below code point 256.
  \<open>str.strip()\<close> removes such characters from both ends.
\<close>

definition isspace :: "char \<Rightarrow> bool" where
  "isspace c = (of_char c \<in> set [9, 10, 11, 12, 13, 28, 29, 30, 31, 32, 133, 160 :: nat])"

definition str_strip :: "string \<Rightarrow> string" where
  "str_strip s = rev (dropWhile isspace (rev (dropWhile isspace s)))"

text \<open>
  \<open>s.split(sep)\<close> with a separator string: the occurrences of \<open>sep\<close> are found from
  left to right without overlap, and the pieces between them are returned, empty ones
  included. An empty separator raises \<open>ValueError\<close>. \<open>split_from sep cur s\<close> is the
  scan with \<open>cur\<close> the piece read so far and \<open>s\<close> the rest of the string.
\<close>

function split_from :: "string \<Rightarrow> string \<Rightarrow> string \<Rightarrow> string list" where
  "split_from sp cur [] = [cur]"
| "split_from sp cur (c # s) =
     (if sp \<noteq> [] \<and> take (length sp) (c # s) = sp
      then cur # split_from sp [] (drop (length sp) (c # s))
      else split_from sp (cur @ [c]) s)"
  by pat_completeness auto
termination
  by (relation "measure (\<lambda>(sp, cur, s). length s)") auto

definition str_split :: "string \<Rightarrow> string \<Rightarrow> error + string list" where
  "str_split s sp = (if sp = [] then Inl ValueError else Inr (split_from sp [] s))"

text \<open>
  \<open>s.replace(old, new)\<close>: every occurrence of \<open>old\<close>, found from left to right without
  overlap, is replaced by \<open>new\<close>; with an empty \<open>old\<close>, \<open>new\<close> is put before every
  character and at the end.
\<close>

function replace_from :: "string \<Rightarrow> string \<Rightarrow> string \<Rightarrow> string" where
  "replace_from old new [] = []"
| "replace_from old new (c # s) =
     (if old \<noteq> [] \<and> take (length old) (c # s) = old
      then new @ replace_from old new (drop (length old) (c # s))
      else c # replace_from old new s)"
  by pat_completeness auto
termination
  by (relation "measure (\<lambda>(old, new, s). length s)") auto

definition str_replace :: "string \<Rightarrow> string \<Rightarrow> string \<Rightarrow> string" where
  "str_replace s old new =
     (if old = [] then new @ concat (map (\<lambda>c. c # new) s) else replace_from old new s)"

subsection \<open>The built-in \<open>float\<close> on a string\<close>

text \<open>
  A Python float is a binary64 number. A finite one is given by its exact value, a
  rational; the sign of zero is not kept (Python compares \<open>-0.0\<close> and \<open>0.0\<close> as equal).
\<close>

datatype pyfloat = Finite rat | PosInf | NegInf | NaN

text \<open>
  \<open>float(s)\<close> first drops white space at both ends. Its white space is that of
  \<open>str.isspace\<close> without the separators 28 to 31.
\<close>

definition float_isspace :: "char \<Rightarrow> bool" where
  "float_isspace c = (of_char c \<in> set [9, 10, 11, 12, 13, 32, 133, 160 :: nat])"

definition float_strip :: "string \<Rightarrow> string" where
  "float_strip s = rev (dropWhile float_isspace (rev (dropWhile float_isspace s)))"

definition is_digit :: "char \<Rightarrow> bool" where
  "is_digit c = (48 \<le> (of_char c :: nat) \<and> (of_char c :: nat) \<le> 57)"

definition to_lower :: "char \<Rightarrow> char" where
  "to_lower c = (if 65 \<le> (of_char c :: nat) \<and> (of_char c :: nat) \<le> 90
                 then char_of (of_char c + 32 :: nat) else c)"

text \<open>
  An underscore is accepted only between two digits. The scan keeps the previous
  character (the null character at the start) and returns the string without its
  underscores, or \<open>None\<close> for a misplaced one.
\<close>

fun remove_underscores :: "char \<Rightarrow> string \<Rightarrow> string option" where
  "remove_underscores prev [] = (if prev = CHR ''_'' then None else Some [])"
| "remove_underscores prev (c # s) =
     (if c = CHR ''_'' then
        (if \<not> is_digit prev then None else remove_underscores c s)
      else if prev = CHR ''_'' \<and> \<not> is_digit c then None
      else map_option ((#) c) (remove_underscores c s))"

definition digits_value :: "string \<Rightarrow> int" where
  "digits_value ds = foldl (\<lambda>n c. 10 * n + (of_char c - 48)) 0 ds"

definition power_int_rat :: "rat \<Rightarrow> int \<Rightarrow> rat" where
  "power_int_rat b e = (if 0 \<le> e then b ^ nat e else 1 / b ^ nat (- e))"

definition parse_sign :: "string \<Rightarrow> bool \<times> string" where
  "parse_sign s =
     (case s of
        [] \<Rightarrow> (False, [])
      | c # r \<Rightarrow> if c = CHR ''-'' then (True, r) else if c = CHR ''+'' then (False, r) else (False, s))"

text \<open>
  The exponent part is empty, or \<open>e\<close> or \<open>E\<close>, an optional sign and at least one digit,
  up to the end of the string.
\<close>

definition parse_exponent :: "string \<Rightarrow> int option" where
  "parse_exponent s =
     (case s of
        [] \<Rightarrow> Some 0
      | c # r \<Rightarrow>
          if c = CHR ''e'' \<or> c = CHR ''E'' then
            (let (neg, ds) = parse_sign r
             in if ds \<noteq> [] \<and> list_all is_digit ds
                then Some (if neg then - digits_value ds else digits_value ds)
                else None)
          else None)"

text \<open>
  An unsigned decimal number: digits, an optional point with digits after it, at least
  one digit before or after the point, and the exponent part. The result is the exact
  value of the decimal numeral.
\<close>

definition parse_number :: "string \<Rightarrow> rat option" where
  "parse_number s =
     (let ds1 = takeWhile is_digit s; r1 = dropWhile is_digit s;
          (ds2, r2) = (case r1 of
                         [] \<Rightarrow> ([], [])
                       | c # t \<Rightarrow> if c = CHR ''.''
                                  then (takeWhile is_digit t, dropWhile is_digit t)
                                  else ([], r1))
      in if ds1 = [] \<and> ds2 = [] then None
         else (case parse_exponent r2 of
                 None \<Rightarrow> None
               | Some e \<Rightarrow> Some (of_int (digits_value (ds1 @ ds2))
                                 * power_int_rat 10 (e - int (length ds2)))))"

text \<open>The words \<open>inf\<close>, \<open>infinity\<close> and \<open>nan\<close>, in any case, after an optional sign.\<close>

definition parse_inf_or_nan :: "string \<Rightarrow> pyfloat option" where
  "parse_inf_or_nan s =
     (let (neg, r) = parse_sign s; l = map to_lower r
      in if l = ''inf'' \<or> l = ''infinity'' then Some (if neg then NegInf else PosInf)
         else if l = ''nan'' then Some NaN
         else None)"

text \<open>
  Rounding of a rational to binary64, to nearest with ties to even: 53 significant bits,
  the least exponent \<open>-1074\<close>, and infinity from \<open>2 ^ 1024\<close> on. \<open>floor_log2 q\<close> is the
  exponent of the greatest power of two not above the positive rational \<open>q\<close>.
\<close>

function bit_length :: "int \<Rightarrow> int" where
  "bit_length n = (if n \<le> 0 then 0 else 1 + bit_length (n div 2))"
  by pat_completeness auto
termination
  by (relation "measure nat") auto

definition floor_log2 :: "rat \<Rightarrow> int" where
  "floor_log2 q =
     (let (p, d) = quotient_of q;
          k = bit_length p - bit_length d
      in if power_int_rat 2 k \<le> q then k else k - 1)"

definition round_half_even :: "rat \<Rightarrow> int" where
  "round_half_even q =
     (let f = \<lfloor>q\<rfloor>; r = q - of_int f
      in if r < 1 / 2 then f else if 1 / 2 < r then f + 1 else if even f then f else f + 1)"

definition binary64 :: "rat \<Rightarrow> pyfloat" where
  "binary64 x =
     (if x = 0 then Finite 0
      else let a = \<bar>x\<bar>;
               e = max (floor_log2 a - 52) (- 1074);
               m = round_half_even (a / power_int_rat 2 e);
               v = of_int m * power_int_rat 2 e
           in if 2 ^ 1024 \<le> v then (if x < 0 then NegInf else PosInf)
              else Finite (if x < 0 then - v else v))"

text \<open>
  \<open>float(s)\<close>: a signed decimal number, rounded, or else one of the special words;
  anything else raises \<open>ValueError\<close>.
\<close>

definition py_float :: "string \<Rightarrow> error + pyfloat" where
  "py_float s =
     (case remove_underscores (CHR 0x00) (float_strip s) of
        None \<Rightarrow> Inl ValueError
      | Some t \<Rightarrow>
          (let (neg, r) = parse_sign t
           in case parse_number r of
                Some q \<Rightarrow> Inr (binary64 (if neg then - q else q))
              | None \<Rightarrow> (case parse_inf_or_nan t of
                           Some v \<Rightarrow> Inr v
                         | None \<Rightarrow> Inl ValueError)))"

subsection \<open>The class \<open>CSV\<close>\<close>

text \<open>
  The attributes of an instance. \<open>sep\<close>, \<open>row_titles\<close> and \<open>col_titles\<close> are the
  source's \<open>_sep\<close>, \<open>_row_titles\<close> and \<open>_col_titles\<close>.
\<close>

record CSV =
  sep :: string
  rows :: "string list list"
  length_of_rows :: nat
  cols :: "string list list"
  length_of_cols :: nat
  row_titles :: bool
  col_titles :: bool

text \<open>
  \<open>all_are_the_same_length\<close>: the loop over the items, with the local variable
  \<open>length\<close> (\<open>None\<close> until the first item is seen) as the first argument.
\<close>

fun same_length_loop :: "nat option \<Rightarrow> 'a list list \<Rightarrow> bool" where
  "same_length_loop len [] = True"
| "same_length_loop len (item # items) =
     (let l = (case len of None \<Rightarrow> length item | Some l0 \<Rightarrow> l0)
      in if \<not> (length item = l) then False else same_length_loop (Some l) items)"

definition all_are_the_same_length :: "'a list list \<Rightarrow> bool" where
  "all_are_the_same_length iterable = same_length_loop None iterable"

text \<open>
  The first loop of \<open>__init__\<close>: every line of the file is stripped and split on the
  separator. The lines are given as the file iterator yields them.
\<close>

fun read_rows :: "string \<Rightarrow> string list \<Rightarrow> error + string list list" where
  "read_rows sp [] = Inr []"
| "read_rows sp (line # rest) =
     (case str_split (str_strip line) sp of
        Inl e \<Rightarrow> Inl e
      | Inr cells \<Rightarrow> (case read_rows sp rest of Inl e \<Rightarrow> Inl e | Inr rs \<Rightarrow> Inr (cells # rs)))"

text \<open>
  The second loop of \<open>__init__\<close>: for every index below \<open>length_of_rows\<close> the column
  \<open>[row[idx] for row in self.rows]\<close>.
\<close>

definition derive_cols :: "'a list list \<Rightarrow> nat \<Rightarrow> error + 'a list list" where
  "derive_cols rs n = comprehension (\<lambda>idx. comprehension (\<lambda>row. getitem row idx) rs) [0..<n]"

text \<open>
  \<open>__init__\<close>, given the lines of the file at \<open>path_to_csv_file\<close> in place of the path:
  opening the file is left out. The steps are those of the source, in its order: the
  rows, the assertion on the rows, \<open>length_of_rows\<close> from \<open>rows[0]\<close>, the columns, the
  assertion on the columns, \<open>length_of_cols\<close> from \<open>cols[0]\<close>, the two flags.
\<close>

definition CSV_init :: "string list \<Rightarrow> string \<Rightarrow> bool \<Rightarrow> bool \<Rightarrow> error + CSV" where
  "CSV_init file_lines seperator has_row_titles has_col_titles =
     (case read_rows seperator file_lines of
        Inl e \<Rightarrow> Inl e
      | Inr rs \<Rightarrow>
          if \<not> all_are_the_same_length rs then Inl AssertionError
          else (case getitem rs 0 of
                  Inl e \<Rightarrow> Inl e
                | Inr row0 \<Rightarrow>
                    (case derive_cols rs (length row0) of
                       Inl e \<Rightarrow> Inl e
                     | Inr cs \<Rightarrow>
                         if \<not> all_are_the_same_length cs then Inl AssertionError
                         else (case getitem cs 0 of
                                 Inl e \<Rightarrow> Inl e
                               | Inr col0 \<Rightarrow>
                                   Inr \<lparr>sep = seperator, rows = rs,
                                        length_of_rows = length row0, cols = cs,
                                        length_of_cols = length col0,
                                        row_titles = has_row_titles,
                                        col_titles = has_col_titles\<rparr>))))"

text \<open>\<open>parse_data\<close>: the nested comprehension; the first cell that is no number raises.\<close>

definition parse_data :: "string list list \<Rightarrow> error + pyfloat list list" where
  "parse_data list_of_list_with_numerical_data_as_strings =
     comprehension
       (\<lambda>nested_list. comprehension (\<lambda>val. py_float (str_replace val '','' ''.'')) nested_list)
       list_of_list_with_numerical_data_as_strings"

text \<open>\<open>get_row_titles\<close> and \<open>get_col_titles\<close>; Python's \<open>None\<close> is \<open>None\<close>.\<close>

definition get_row_titles :: "CSV \<Rightarrow> error + string list option" where
  "get_row_titles self =
     (if row_titles self then
        (if col_titles self then
           (case comprehension (\<lambda>(i, row). getitem row 0)
                   (filter (\<lambda>(i, row). i \<noteq> 0) (enumerate (rows self))) of
              Inl e \<Rightarrow> Inl e
            | Inr titles \<Rightarrow> Inr (Some titles))
         else
           (case comprehension (\<lambda>row. getitem row 0) (rows self) of
              Inl e \<Rightarrow> Inl e
            | Inr titles \<Rightarrow> Inr (Some titles)))
      else Inr None)"

definition get_col_titles :: "CSV \<Rightarrow> error + string list option" where
  "get_col_titles self =
     (if col_titles self then
        (if row_titles self then
           (case comprehension (\<lambda>(i, col). getitem col 0)
                   (filter (\<lambda>(i, col). i \<noteq> 0) (enumerate (cols self))) of
              Inl e \<Rightarrow> Inl e
            | Inr titles \<Rightarrow> Inr (Some titles))
         else
           (case comprehension (\<lambda>col. getitem col 0)
                   (filter (\<lambda>col. col \<noteq> []) (cols self)) of
              Inl e \<Rightarrow> Inl e
            | Inr titles \<Rightarrow> Inr (Some titles)))
      else Inr None)"

text \<open>
  \<open>get_data_per_row_without_titles\<close> and \<open>get_data_per_col_without_titles\<close>: each
  \<open>for\<close> loop is a fold over the list it runs through, whose accumulator is the local
  list the loop appends to. The slice \<open>row[1:]\<close> is \<open>drop 1 row\<close>.
\<close>

definition get_data_per_row_without_titles :: "CSV \<Rightarrow> string list list" where
  "get_data_per_row_without_titles self =
     (if row_titles self \<and> col_titles self then
        foldl (\<lambda>relevant_rows (i, row).
                 if i = 0 then relevant_rows else relevant_rows @ [drop 1 row])
          [] (enumerate (rows self))
      else if col_titles self then
        foldl (\<lambda>relevant_rows (i, row).
                 if i = 0 then relevant_rows else relevant_rows @ [row])
          [] (enumerate (rows self))
      else if row_titles self then
        foldl (\<lambda>relevant_rows row. relevant_rows @ [drop 1 row]) [] (rows self)
      else rows self)"

definition get_data_per_col_without_titles :: "CSV \<Rightarrow> string list list" where
  "get_data_per_col_without_titles self =
     (if row_titles self \<and> col_titles self then
        foldl (\<lambda>relevant_cols (i, col).
                 if i = 0 then relevant_cols else relevant_cols @ [drop 1 col])
          [] (enumerate (cols self))
      else if row_titles self then
        foldl (\<lambda>relevant_cols (i, col).
                 if i = 0 then relevant_cols else relevant_cols @ [col])
          [] (enumerate (cols self))
      else if col_titles self then
        foldl (\<lambda>relevant_cols col. relevant_cols @ [drop 1 col]) [] (cols self)
      else cols self)"

text \<open>
  \<open>to_df\<close>, up to the call of \<open>pd.DataFrame\<close>: the result is the three arguments of
  that call.
\<close>

record dataframe =
  data :: "pyfloat list list"
  index :: "string list option"
  columns :: "string list option"

definition to_df :: "CSV \<Rightarrow> error + dataframe" where
  "to_df self =
     (case get_row_titles self of
        Inl e \<Rightarrow> Inl e
      | Inr row_titles' \<Rightarrow>
          (case get_col_titles self of
             Inl e \<Rightarrow> Inl e
           | Inr col_titles' \<Rightarrow>
               (case parse_data (get_data_per_row_without_titles self) of
                  Inl e \<Rightarrow> Inl e
                | Inr parsed \<Rightarrow>
                    Inr \<lparr>data = parsed, index = row_titles', columns = col_titles'\<rparr>)))"

subsection \<open>Notions of the specification\<close>

text \<open>
  The transposition of a list of rows is taken as \<open>__init__\<close> derives \<open>cols\<close> from
  \<open>rows\<close>: one column for every index of the first row.
\<close>

definition transposed :: "'a list list \<Rightarrow> error + 'a list list" where
  "transposed rs =
     (case getitem rs 0 of Inl e \<Rightarrow> Inl e | Inr row0 \<Rightarrow> derive_cols rs (length row0))"

text \<open>Python's \<open>titles or []\<close> for a result that is \<open>None\<close> or a list.\<close>

definition or_empty :: "'a list option \<Rightarrow> 'a list" where
  "or_empty titles = (case titles of None \<Rightarrow> [] | Some ts \<Rightarrow> if ts = [] then [] else ts)"

subsection \<open>Instances used as examples\<close>

text \<open>
  The instances read from the lines \<open>t,c1,c2\<close>, \<open>r1,1,2\<close>, \<open>r2,3,4\<close> with both kinds
  of titles, from \<open>c1,c2\<close>, \<open>1,2\<close>, \<open>3,4\<close> with column titles only, and from
  \<open>r1,1,2\<close>, \<open>r2,3,4\<close> with row titles only.
\<close>

definition both_titles :: CSV where
  "both_titles =
     \<lparr>sep = '','',
      rows = [[''t'', ''c1'', ''c2''], [''r1'', ''1'', ''2''], [''r2'', ''3'', ''4'']],
      length_of_rows = 3,
      cols = [[''t'', ''r1'', ''r2''], [''c1'', ''1'', ''3''], [''c2'', ''2'', ''4'']],
      length_of_cols = 3, row_titles = True, col_titles = True\<rparr>"

definition col_titles_only :: CSV where
  "col_titles_only =
     \<lparr>sep = '','', rows = [[''c1'', ''c2''], [''1'', ''2''], [''3'', ''4'']],
      length_of_rows = 2, cols = [[''c1'', ''1'', ''3''], [''c2'', ''2'', ''4'']],
      length_of_cols = 3, row_titles = False, col_titles = True\<rparr>"

definition row_titles_only :: CSV where
  "row_titles_only =
     \<lparr>sep = '','', rows = [[''r1'', ''1'', ''2''], [''r2'', ''3'', ''4'']],
      length_of_rows = 3, cols = [[''r1'', ''r2''], [''1'', ''3''], [''2'', ''4'']],
      length_of_cols = 2, row_titles = True, col_titles = False\<rparr>"

text \<open>The instance read from the one line \<open>a,b\<close> with column titles only.\<close>

definition one_line_col_titles :: CSV where
  "one_line_col_titles =
     \<lparr>sep = '','', rows = [[''a'', ''b'']], length_of_rows = 2,
      cols = [[''a''], [''b'']], length_of_cols = 1,
      row_titles = False, col_titles = True\<rparr>"

text \<open>The instance read from the two lines \<open>1,2\<close> and \<open>3,4\<close> without titles.\<close>

definition two_lines_no_titles :: CSV where
  "two_lines_no_titles =
     \<lparr>sep = '','', rows = [[''1'', ''2''], [''3'', ''4'']], length_of_rows = 2,
      cols = [[''1'', ''3''], [''2'', ''4'']], length_of_cols = 2,
      row_titles = False, col_titles = False\<rparr>"

subsection \<open>The instance and the lists it refers to, in a store\<close>

text \<open>
  The functions above compute with the values of the cells. To say what a method does to
  the objects it is given, and whether two results are the same object, the methods are
  now written over a store: a list of objects, the address of an object being its
  position. Creating an object appends it to the store, so an address is never reused; a
  method changes an existing object only where the source does, by \<open>append\<close> on a list.

  A value is a string, \<open>None\<close> or a reference to an object. Strings are immutable and are
  compared by their characters, so they are kept as values. An object is a list of
  values, a \<open>float\<close> or an instance of \<open>CSV\<close> with its seven attributes, of which \<open>rows\<close> and
  \<open>cols\<close> are references to lists of references to lists of strings.
\<close>

type_synonym addr = nat

datatype val = Str string | NoneVal | Ref addr

record attributes =
  self_sep :: string
  self_rows :: val
  self_length_of_rows :: nat
  self_cols :: val
  self_length_of_cols :: nat
  self_row_titles :: bool
  self_col_titles :: bool

datatype obj =
  ListObj "val list"
| FloatObj pyfloat
| InstanceObj attributes

type_synonym store = "obj list"

text \<open>
  Creating an object: it gets the next address.
\<close>

definition new :: "store \<Rightarrow> obj \<Rightarrow> addr \<times> store" where
  "new h ob = (length h, h @ [ob])"

text \<open>
  The items an iteration over a value yields: the items of a list, the characters of a
  string; \<open>None\<close>, a \<open>float\<close> and an instance of \<open>CSV\<close> are not iterable (\<open>TypeError\<close>), and
  neither, in this model, is a reference that leads nowhere. \<open>v[i]\<close> is written for a
  list or a string and \<open>i \<ge> 0\<close>.
\<close>

definition items :: "store \<Rightarrow> val \<Rightarrow> error + val list" where
  "items h v =
     (case v of
        Str s \<Rightarrow> Inr (map (\<lambda>c. Str [c]) s)
      | NoneVal \<Rightarrow> Inl TypeError
      | Ref a \<Rightarrow>
          if a < length h then (case h ! a of ListObj xs \<Rightarrow> Inr xs | _ \<Rightarrow> Inl TypeError)
          else Inl TypeError)"

definition subscript :: "store \<Rightarrow> val \<Rightarrow> nat \<Rightarrow> error + val" where
  "subscript h v i = (case items h v of Inl e \<Rightarrow> Inl e | Inr xs \<Rightarrow> getitem xs i)"

text \<open>
  \<open>v[1:]\<close> creates a new list (or gives a string); \<open>v.append(x)\<close> changes the list \<open>v\<close>
  refers to in place, and is an \<open>AttributeError\<close> on anything that is no list.
\<close>

definition slice_from_1 :: "store \<Rightarrow> val \<Rightarrow> (error + val) \<times> store" where
  "slice_from_1 h v =
     (case v of
        Str s \<Rightarrow> (Inr (Str (drop 1 s)), h)
      | NoneVal \<Rightarrow> (Inl TypeError, h)
      | Ref a \<Rightarrow>
          if a < length h then
            (case h ! a of
               ListObj xs \<Rightarrow> (let (b, h') = new h (ListObj (drop 1 xs)) in (Inr (Ref b), h'))
             | _ \<Rightarrow> (Inl TypeError, h))
          else (Inl TypeError, h))"

definition list_append :: "store \<Rightarrow> val \<Rightarrow> val \<Rightarrow> (error + unit) \<times> store" where
  "list_append h v x =
     (case v of
        Ref a \<Rightarrow>
          if a < length h then
            (case h ! a of
               ListObj xs \<Rightarrow> (Inr (), h[a := ListObj (xs @ [x])])
             | _ \<Rightarrow> (Inl AttributeError, h))
          else (Inl AttributeError, h)
      | _ \<Rightarrow> (Inl AttributeError, h))"

text \<open>
  The truth value of a value in a condition, and the attributes of \<open>self\<close>.
\<close>

definition truthy :: "store \<Rightarrow> val \<Rightarrow> bool" where
  "truthy h v =
     (case v of
        Str s \<Rightarrow> s \<noteq> []
      | NoneVal \<Rightarrow> False
      | Ref a \<Rightarrow>
          if a < length h then
            (case h ! a of ListObj xs \<Rightarrow> xs \<noteq> [] | FloatObj x \<Rightarrow> x \<noteq> Finite 0 | _ \<Rightarrow> True)
          else True)"

definition attributes_of :: "store \<Rightarrow> val \<Rightarrow> error + attributes" where
  "attributes_of h self =
     (case self of
        Ref a \<Rightarrow>
          if a < length h then
            (case h ! a of InstanceObj attrs \<Rightarrow> Inr attrs | _ \<Rightarrow> Inl AttributeError)
          else Inl AttributeError
      | _ \<Rightarrow> Inl AttributeError)"

text \<open>
  A list comprehension and a \<open>for\<close> loop whose body works on the store: the store is passed
  from one element to the next, and the first exception ends the loop.
\<close>

fun comprehension_store ::
  "('a \<Rightarrow> store \<Rightarrow> (error + val) \<times> store) \<Rightarrow> 'a list \<Rightarrow> store \<Rightarrow> (error + val list) \<times> store"
where
  "comprehension_store f [] h = (Inr [], h)"
| "comprehension_store f (x # xs) h =
     (case f x h of
        (Inl e, h') \<Rightarrow> (Inl e, h')
      | (Inr y, h') \<Rightarrow>
          (case comprehension_store f xs h' of
             (Inl e, h'') \<Rightarrow> (Inl e, h'')
           | (Inr ys, h'') \<Rightarrow> (Inr (y # ys), h'')))"

fun for_loop ::
  "('a \<Rightarrow> store \<Rightarrow> (error + unit) \<times> store) \<Rightarrow> 'a list \<Rightarrow> store \<Rightarrow> (error + unit) \<times> store"
where
  "for_loop body [] h = (Inr (), h)"
| "for_loop body (x # xs) h =
     (case body x h of
        (Inl e, h') \<Rightarrow> (Inl e, h')
      | (Inr u, h') \<Rightarrow> for_loop body xs h')"

text \<open>
  The list a comprehension evaluates to is a new object.
\<close>

definition new_list :: "store \<Rightarrow> error + val list \<Rightarrow> (error + val) \<times> store" where
  "new_list h r =
     (case r of
        Inl e \<Rightarrow> (Inl e, h)
      | Inr xs \<Rightarrow> (let (a, h') = new h (ListObj xs) in (Inr (Ref a), h')))"

text \<open>
  \<open>get_row_titles\<close> and \<open>get_col_titles\<close>: the comprehension reads the first item of every
  row (column) and its result is a new list; without titles the result is \<open>None\<close>.
\<close>

definition get_row_titles_store :: "store \<Rightarrow> val \<Rightarrow> (error + val) \<times> store" where
  "get_row_titles_store h self =
     (case attributes_of h self of
        Inl e \<Rightarrow> (Inl e, h)
      | Inr attrs \<Rightarrow>
          if self_row_titles attrs then
            (case items h (self_rows attrs) of
               Inl e \<Rightarrow> (Inl e, h)
             | Inr rs \<Rightarrow>
                 if self_col_titles attrs then
                   new_list h (comprehension (\<lambda>(i, row). subscript h row 0)
                                 (filter (\<lambda>(i, row). i \<noteq> 0) (enumerate rs)))
                 else new_list h (comprehension (\<lambda>row. subscript h row 0) rs))
          else (Inr NoneVal, h))"

definition get_col_titles_store :: "store \<Rightarrow> val \<Rightarrow> (error + val) \<times> store" where
  "get_col_titles_store h self =
     (case attributes_of h self of
        Inl e \<Rightarrow> (Inl e, h)
      | Inr attrs \<Rightarrow>
          if self_col_titles attrs then
            (case items h (self_cols attrs) of
               Inl e \<Rightarrow> (Inl e, h)
             | Inr cs \<Rightarrow>
                 if self_row_titles attrs then
                   new_list h (comprehension (\<lambda>(i, col). subscript h col 0)
                                 (filter (\<lambda>(i, col). i \<noteq> 0) (enumerate cs)))
                 else new_list h (comprehension (\<lambda>col. subscript h col 0)
                                    (filter (\<lambda>col. truthy h col) cs)))
          else (Inr NoneVal, h))"

text \<open>
  \<open>get_data_per_row_without_titles\<close> creates the list \<open>relevant_rows\<close>, then appends to it:
  the slice \<open>row[1:]\<close>, a new list, when there are row titles, and the object \<open>row\<close> itself
  when there are column titles only. Without titles the name \<open>relevant_rows\<close> is bound to
  the object \<open>self.rows\<close>, which is returned. The loop is run over the items
  \<open>self.rows\<close> has when it starts: its body appends to \<open>relevant_rows\<close> only, a list
  created in the call, so the list it runs over stays as it is.
  \<open>get_data_per_col_without_titles\<close> is the same on \<open>self.cols\<close>.
\<close>

definition get_data_per_row_without_titles_store ::
  "store \<Rightarrow> val \<Rightarrow> (error + val) \<times> store" where
  "get_data_per_row_without_titles_store h self =
     (let (a, h1) = new h (ListObj []); relevant_rows = Ref a in
      case attributes_of h1 self of
        Inl e \<Rightarrow> (Inl e, h1)
      | Inr attrs \<Rightarrow>
          if self_row_titles attrs \<and> self_col_titles attrs then
            (case items h1 (self_rows attrs) of
               Inl e \<Rightarrow> (Inl e, h1)
             | Inr rs \<Rightarrow>
                 (case for_loop
                         (\<lambda>(i, row) h.
                            if i = 0 then (Inr (), h)
                            else (case slice_from_1 h row of
                                    (Inl e, h') \<Rightarrow> (Inl e, h')
                                  | (Inr s, h') \<Rightarrow> list_append h' relevant_rows s))
                         (enumerate rs) h1 of
                    (Inl e, h2) \<Rightarrow> (Inl e, h2)
                  | (Inr u, h2) \<Rightarrow> (Inr relevant_rows, h2)))
          else if self_col_titles attrs then
            (case items h1 (self_rows attrs) of
               Inl e \<Rightarrow> (Inl e, h1)
             | Inr rs \<Rightarrow>
                 (case for_loop
                         (\<lambda>(i, row) h.
                            if i = 0 then (Inr (), h) else list_append h relevant_rows row)
                         (enumerate rs) h1 of
                    (Inl e, h2) \<Rightarrow> (Inl e, h2)
                  | (Inr u, h2) \<Rightarrow> (Inr relevant_rows, h2)))
          else if self_row_titles attrs then
            (case items h1 (self_rows attrs) of
               Inl e \<Rightarrow> (Inl e, h1)
             | Inr rs \<Rightarrow>
                 (case for_loop
                         (\<lambda>row h.
                            case slice_from_1 h row of
                              (Inl e, h') \<Rightarrow> (Inl e, h')
                            | (Inr s, h') \<Rightarrow> list_append h' relevant_rows s)
                         rs h1 of
                    (Inl e, h2) \<Rightarrow> (Inl e, h2)
                  | (Inr u, h2) \<Rightarrow> (Inr relevant_rows, h2)))
          else (Inr (self_rows attrs), h1))"

definition get_data_per_col_without_titles_store ::
  "store \<Rightarrow> val \<Rightarrow> (error + val) \<times> store" where
  "get_data_per_col_without_titles_store h self =
     (let (a, h1) = new h (ListObj []); relevant_cols = Ref a in
      case attributes_of h1 self of
        Inl e \<Rightarrow> (Inl e, h1)
      | Inr attrs \<Rightarrow>
          if self_row_titles attrs \<and> self_col_titles attrs then
            (case items h1 (self_cols attrs) of
               Inl e \<Rightarrow> (Inl e, h1)
             | Inr cs \<Rightarrow>
                 (case for_loop
                         (\<lambda>(i, col) h.
                            if i = 0 then (Inr (), h)
                            else (case slice_from_1 h col of
                                    (Inl e, h') \<Rightarrow> (Inl e, h')
                                  | (Inr s, h') \<Rightarrow> list_append h' relevant_cols s))
                         (enumerate cs) h1 of
                    (Inl e, h2) \<Rightarrow> (Inl e, h2)
                  | (Inr u, h2) \<Rightarrow> (Inr relevant_cols, h2)))
          else if self_row_titles attrs then
            (case items h1 (self_cols attrs) of
               Inl e \<Rightarrow> (Inl e, h1)
             | Inr cs \<Rightarrow>
                 (case for_loop
                         (\<lambda>(i, col) h.
                            if i = 0 then (Inr (), h) else list_append h relevant_cols col)
                         (enumerate cs) h1 of
                    (Inl e, h2) \<Rightarrow> (Inl e, h2)
                  | (Inr u, h2) \<Rightarrow> (Inr relevant_cols, h2)))
          else if self_col_titles attrs then
            (case items h1 (self_cols attrs) of
               Inl e \<Rightarrow> (Inl e, h1)
             | Inr cs \<Rightarrow>
                 (case for_loop
                         (\<lambda>col h.
                            case slice_from_1 h col of
                              (Inl e, h') \<Rightarrow> (Inl e, h')
                            | (Inr s, h') \<Rightarrow> list_append h' relevant_cols s)
                         cs h1 of
                    (Inl e, h2) \<Rightarrow> (Inl e, h2)
                  | (Inr u, h2) \<Rightarrow> (Inr relevant_cols, h2)))
          else (Inr (self_cols attrs), h1))"

text \<open>
  \<open>parse_data\<close>: \<open>float(val.replace(",", "."))\<close> creates a \<open>float\<close>; only a string has the
  method \<open>replace\<close> among the values here. Each inner comprehension and the outer one
  create a list.
\<close>

definition float_of_cell :: "val \<Rightarrow> store \<Rightarrow> (error + val) \<times> store" where
  "float_of_cell val h =
     (case val of
        Str s \<Rightarrow>
          (case py_float (str_replace s '','' ''.'') of
             Inl e \<Rightarrow> (Inl e, h)
           | Inr x \<Rightarrow> (let (a, h') = new h (FloatObj x) in (Inr (Ref a), h')))
      | _ \<Rightarrow> (Inl AttributeError, h))"

definition floats_of_nested_list :: "val \<Rightarrow> store \<Rightarrow> (error + val) \<times> store" where
  "floats_of_nested_list nested_list h =
     (case items h nested_list of
        Inl e \<Rightarrow> (Inl e, h)
      | Inr vals \<Rightarrow>
          (case comprehension_store float_of_cell vals h of
             (r, h') \<Rightarrow> new_list h' r))"

definition parse_data_store :: "store \<Rightarrow> val \<Rightarrow> (error + val) \<times> store" where
  "parse_data_store h list_of_list_with_numerical_data_as_strings =
     (case items h list_of_list_with_numerical_data_as_strings of
        Inl e \<Rightarrow> (Inl e, h)
      | Inr nested_lists \<Rightarrow>
          (case comprehension_store floats_of_nested_list nested_lists h of
             (r, h') \<Rightarrow> new_list h' r))"

text \<open>
  \<open>to_df\<close> calls the four methods in the order of the source and returns what
  \<open>pd.DataFrame\<close> makes of the parsed data and the titles. A data frame is an object of
  pandas and not of the store: the result records the three arguments of that call. The
  other methods return a value.
\<close>

datatype result = Val val | DataFrame val val val

definition to_df_store :: "store \<Rightarrow> val \<Rightarrow> (error + result) \<times> store" where
  "to_df_store h self =
     (case get_row_titles_store h self of
        (Inl e, h1) \<Rightarrow> (Inl e, h1)
      | (Inr row_titles', h1) \<Rightarrow>
          (case get_col_titles_store h1 self of
             (Inl e, h2) \<Rightarrow> (Inl e, h2)
           | (Inr col_titles', h2) \<Rightarrow>
               (case get_data_per_row_without_titles_store h2 self of
                  (Inl e, h3) \<Rightarrow> (Inl e, h3)
                | (Inr strings, h3) \<Rightarrow>
                    (case parse_data_store h3 strings of
                       (Inl e, h4) \<Rightarrow> (Inl e, h4)
                     | (Inr parsed, h4) \<Rightarrow>
                         (Inr (DataFrame parsed row_titles' col_titles'), h4)))))"

text \<open>
  The constructor, seen from the store. What it computes is \<open>CSV_init\<close>; when it
  returns, the store holds a list for each row, the list of these, a list for each
  column, the list of these, and the instance whose attributes refer to them, all of them
  new objects. (The source creates the instance and the two outer lists before it
  fills them; the addresses differ, the references do not.) When the constructor raises,
  no reference to what it created remains, and the store is left as it was.
\<close>

fun store_each :: "store \<Rightarrow> string list list \<Rightarrow> val list \<times> store" where
  "store_each h [] = ([], h)"
| "store_each h (xs # xss) =
     (let (a, h1) = new h (ListObj (map Str xs)); (vs, h2) = store_each h1 xss
      in (Ref a # vs, h2))"

definition store_lists :: "store \<Rightarrow> string list list \<Rightarrow> val \<times> store" where
  "store_lists h xss =
     (let (vs, h1) = store_each h xss; (a, h2) = new h1 (ListObj vs) in (Ref a, h2))"

definition CSV_init_store ::
  "store \<Rightarrow> string list \<Rightarrow> string \<Rightarrow> bool \<Rightarrow> bool \<Rightarrow> (error + val) \<times> store" where
  "CSV_init_store h file_lines seperator has_row_titles has_col_titles =
     (case CSV_init file_lines seperator has_row_titles has_col_titles of
        Inl e \<Rightarrow> (Inl e, h)
      | Inr c \<Rightarrow>
          (let (rs, h1) = store_lists h (rows c);
               (cs, h2) = store_lists h1 (cols c);
               (a, h3) = new h2 (InstanceObj
                   \<lparr>self_sep = sep c, self_rows = rs,
                    self_length_of_rows = length_of_rows c, self_cols = cs,
                    self_length_of_cols = length_of_cols c,
                    self_row_titles = row_titles c, self_col_titles = col_titles c\<rparr>)
           in (Inr (Ref a), h3)))"

text \<open>
  The six methods a caller may invoke on an instance, and a sequence of such calls.
  \<open>parse_data\<close> takes its argument from the caller.
\<close>

datatype operation =
  Get_row_titles
| Get_col_titles
| Get_data_per_row_without_titles
| Get_data_per_col_without_titles
| Parse_data val
| To_df

definition returned :: "(error + val) \<times> store \<Rightarrow> (error + result) \<times> store" where
  "returned p = (case p of (Inl e, h) \<Rightarrow> (Inl e, h) | (Inr v, h) \<Rightarrow> (Inr (Val v), h))"

fun call :: "store \<Rightarrow> val \<Rightarrow> operation \<Rightarrow> (error + result) \<times> store" where
  "call h self Get_row_titles = returned (get_row_titles_store h self)"
| "call h self Get_col_titles = returned (get_col_titles_store h self)"
| "call h self Get_data_per_row_without_titles =
     returned (get_data_per_row_without_titles_store h self)"
| "call h self Get_data_per_col_without_titles =
     returned (get_data_per_col_without_titles_store h self)"
| "call h self (Parse_data cells) = returned (parse_data_store h cells)"
| "call h self To_df = to_df_store h self"

fun calls :: "store \<Rightarrow> val \<Rightarrow> operation list \<Rightarrow> (error + result) list \<times> store" where
  "calls h self [] = ([], h)"
| "calls h self (op # ops) =
     (let (r, h1) = call h self op; (rs, h2) = calls h1 self ops in (r # rs, h2))"

text \<open>
  Reading a result back: the strings, lists of strings, titles, floats and lists of floats a
  value stands for in a store, if it does; and the instance as \<open>CSV_init\<close> describes it.
\<close>

definition list_at :: "store \<Rightarrow> val \<Rightarrow> val list option" where
  "list_at h v =
     (case v of
        Ref a \<Rightarrow> if a < length h then (case h ! a of ListObj xs \<Rightarrow> Some xs | _ \<Rightarrow> None) else None
      | _ \<Rightarrow> None)"

definition float_at :: "store \<Rightarrow> val \<Rightarrow> pyfloat option" where
  "float_at h v =
     (case v of
        Ref a \<Rightarrow> if a < length h then (case h ! a of FloatObj x \<Rightarrow> Some x | _ \<Rightarrow> None) else None
      | _ \<Rightarrow> None)"

definition str_of :: "val \<Rightarrow> string option" where
  "str_of v = (case v of Str s \<Rightarrow> Some s | _ \<Rightarrow> None)"

definition strs_of :: "store \<Rightarrow> val \<Rightarrow> string list option" where
  "strs_of h v = (case list_at h v of None \<Rightarrow> None | Some xs \<Rightarrow> those (map str_of xs))"

definition str_lists_of :: "store \<Rightarrow> val \<Rightarrow> string list list option" where
  "str_lists_of h v = (case list_at h v of None \<Rightarrow> None | Some ls \<Rightarrow> those (map (strs_of h) ls))"

definition titles_of :: "store \<Rightarrow> val \<Rightarrow> string list option option" where
  "titles_of h v = (case v of NoneVal \<Rightarrow> Some None | _ \<Rightarrow> map_option Some (strs_of h v))"

definition floats_of :: "store \<Rightarrow> val \<Rightarrow> pyfloat list option" where
  "floats_of h v = (case list_at h v of None \<Rightarrow> None | Some xs \<Rightarrow> those (map (float_at h) xs))"

definition float_lists_of :: "store \<Rightarrow> val \<Rightarrow> pyfloat list list option" where
  "float_lists_of h v = (case list_at h v of None \<Rightarrow> None | Some ls \<Rightarrow> those (map (floats_of h) ls))"

definition dataframe_of :: "store \<Rightarrow> result \<Rightarrow> dataframe option" where
  "dataframe_of h r =
     (case r of
        DataFrame d i c \<Rightarrow>
          (case (float_lists_of h d, titles_of h i, titles_of h c) of
             (Some fss, Some idx, Some cls) \<Rightarrow> Some \<lparr>data = fss, index = idx, columns = cls\<rparr>
           | _ \<Rightarrow> None)
      | Val v \<Rightarrow> None)"

definition view :: "store \<Rightarrow> val \<Rightarrow> CSV option" where
  "view h self =
     (case attributes_of h self of
        Inl e \<Rightarrow> None
      | Inr attrs \<Rightarrow>
          (case (str_lists_of h (self_rows attrs), str_lists_of h (self_cols attrs)) of
             (Some rs, Some cs) \<Rightarrow>
               Some \<lparr>sep = self_sep attrs, rows = rs,
                     length_of_rows = self_length_of_rows attrs, cols = cs,
                     length_of_cols = self_length_of_cols attrs,
                     row_titles = self_row_titles attrs, col_titles = self_col_titles attrs\<rparr>
           | _ \<Rightarrow> None))"

text \<open>
  Python's \<open>==\<close>. On floats a NaN equals nothing, itself included. On lists, \<open>==\<close> is
  \<open>False\<close> for different lengths; otherwise the items are compared in order, two items
  that are the same object counting as equal without being compared (so \<open>x == x\<close> holds of
  a list \<open>x\<close> that holds a NaN, while two lists holding different NaN objects differ).
  An instance of \<open>CSV\<close> defines no \<open>__eq__\<close> and equals only itself. The first argument
  bounds the depth of nesting that is followed.
\<close>

definition float_eq :: "pyfloat \<Rightarrow> pyfloat \<Rightarrow> bool" where
  "float_eq x y = (x \<noteq> NaN \<and> y \<noteq> NaN \<and> x = y)"

definition is_same :: "val \<Rightarrow> val \<Rightarrow> bool" where
  "is_same v w = (case (v, w) of (Ref a, Ref b) \<Rightarrow> a = b | (NoneVal, NoneVal) \<Rightarrow> True | _ \<Rightarrow> False)"

fun rich_eq :: "nat \<Rightarrow> store \<Rightarrow> val \<Rightarrow> val \<Rightarrow> bool option"
  and items_eq :: "nat \<Rightarrow> store \<Rightarrow> val list \<Rightarrow> val list \<Rightarrow> bool option"
where
  "rich_eq 0 h v w = None"
| "rich_eq (Suc n) h v w =
     (case (v, w) of
        (Str s, Str t) \<Rightarrow> Some (s = t)
      | (NoneVal, NoneVal) \<Rightarrow> Some True
      | (Ref a, Ref b) \<Rightarrow>
          if a < length h \<and> b < length h then
            (case (h ! a, h ! b) of
               (ListObj xs, ListObj ys) \<Rightarrow>
                 if length xs \<noteq> length ys then Some False else items_eq n h xs ys
             | (FloatObj x, FloatObj y) \<Rightarrow> Some (float_eq x y)
             | (InstanceObj x, InstanceObj y) \<Rightarrow> Some (a = b)
             | _ \<Rightarrow> Some False)
          else None
      | _ \<Rightarrow> Some False)"
| "items_eq n h (x # xs) (y # ys) =
     (if is_same x y then items_eq n h xs ys
      else (case rich_eq n h x y of
              None \<Rightarrow> None
            | Some b \<Rightarrow> if b then items_eq n h xs ys else Some False))"
| "items_eq n h xs ys = Some True"

text \<open>
  A list of floats (of lists of floats) all of whose objects were created after the store
  had \<open>n\<close> objects.
\<close>

definition created_since :: "nat \<Rightarrow> val \<Rightarrow> bool" where
  "created_since n v = (case v of Ref a \<Rightarrow> n \<le> a | _ \<Rightarrow> False)"

definition fresh_floats :: "nat \<Rightarrow> store \<Rightarrow> val \<Rightarrow> bool" where
  "fresh_floats n h v =
     (created_since n v
      \<and> (case list_at h v of None \<Rightarrow> False | Some fs \<Rightarrow> list_all (created_since n) fs))"

definition fresh_float_lists :: "nat \<Rightarrow> store \<Rightarrow> val \<Rightarrow> bool" where
  "fresh_float_lists n h v =
     (created_since n v
      \<and> (case list_at h v of None \<Rightarrow> False | Some ls \<Rightarrow> list_all (fresh_floats n h) ls))"

text \<open>
  The stores the constructor leaves, starting from the empty store, for the lines
  \<open>t,c1,c2\<close>, \<open>r1,1,2\<close>, \<open>r2,3,4\<close> with both kinds of titles and for the one line
  \<open>nan\<close> without titles.
\<close>

definition both_titles_store :: store where
  "both_titles_store =
     [ListObj [Str ''t'', Str ''c1'', Str ''c2''],
      ListObj [Str ''r1'', Str ''1'', Str ''2''],
      ListObj [Str ''r2'', Str ''3'', Str ''4''],
      ListObj [Ref 0, Ref 1, Ref 2],
      ListObj [Str ''t'', Str ''r1'', Str ''r2''],
      ListObj [Str ''c1'', Str ''1'', Str ''3''],
      ListObj [Str ''c2'', Str ''2'', Str ''4''],
      ListObj [Ref 4, Ref 5, Ref 6],
      InstanceObj
        \<lparr>self_sep = '','', self_rows = Ref 3, self_length_of_rows = 3,
         self_cols = Ref 7, self_length_of_cols = 3,
         self_row_titles = True, self_col_titles = True\<rparr>]"

definition nan_store :: store where
  "nan_store =
     [ListObj [Str ''nan''], ListObj [Ref 0], ListObj [Str ''nan''], ListObj [Ref 2],
      InstanceObj
        \<lparr>self_sep = '','', self_rows = Ref 1, self_length_of_rows = 1,
         self_cols = Ref 3, self_length_of_cols = 1,
         self_row_titles = False, self_col_titles = False\<rparr>]"

section \<open>Auxiliary facts\<close>

subsection \<open>Comprehensions and loops\<close>

lemma comprehension_total:
  "(\<forall>x\<in>set xs. f x = Inr (g x)) \<Longrightarrow> comprehension f xs = Inr (map g xs)"
  by (induction xs) auto

lemma comprehension_Inl:
  "comprehension f xs = Inl e \<Longrightarrow> \<exists>x\<in>set xs. f x = Inl e"
  by (induction xs) (auto split: sum.splits)

lemma comprehension_Inr_D:
  "comprehension f xs = Inr ys \<Longrightarrow> list_all2 (\<lambda>x y. f x = Inr y) xs ys"
  by (induction xs arbitrary: ys) (auto split: sum.splits)

lemma comprehension_Inr_I:
  "list_all2 (\<lambda>x y. f x = Inr y) xs ys \<Longrightarrow> comprehension f xs = Inr ys"
  by (induction rule: list_all2_induct) auto

lemma comprehension_Inr_iff:
  "comprehension f xs = Inr ys \<longleftrightarrow> list_all2 (\<lambda>x y. f x = Inr y) xs ys"
  using comprehension_Inr_D comprehension_Inr_I by blast

lemma comprehension_snd:
  "comprehension (\<lambda>(i, x). g x) ps = comprehension g (map snd ps)"
  by (induction ps) (auto split: sum.splits)

lemma foldl_append_map: "foldl (\<lambda>acc x. acc @ [f x]) a xs = a @ map f xs"
  by (induction xs arbitrary: a) auto

lemma foldl_skip_first:
  "foldl (\<lambda>acc (i, x). if i = 0 then acc else acc @ [f x]) a ps =
     a @ map f (map snd (filter (\<lambda>(i, x). i \<noteq> 0) ps))"
  by (induction ps arbitrary: a) (auto split: prod.splits)

lemma enumerate_skip_first:
  "map snd (filter (\<lambda>(i, x). i \<noteq> 0) (enumerate xs)) = tl xs"
proof (cases xs)
  case Nil
  then show ?thesis by (simp add: enumerate_def)
next
  case (Cons x ys)
  have "filter (\<lambda>(i, x). i \<noteq> 0) (zip [Suc 0..<Suc (length ys)] ys) = zip [Suc 0..<Suc (length ys)] ys"
    by (rule filter_True) (auto dest!: set_zip_leftD simp del: upt_Suc)
  then show ?thesis
    using Cons by (simp add: enumerate_def upt_conv_Cons del: upt_Suc)
qed

lemma same_length_loop_Some:
  "same_length_loop (Some l) xs = (\<forall>x\<in>set xs. length x = l)"
  by (induction xs) (auto simp: Let_def)

lemma all_are_the_same_length_iff:
  "all_are_the_same_length xs = (\<forall>x\<in>set xs. length x = length (hd xs))"
  by (cases xs) (auto simp: all_are_the_same_length_def same_length_loop_Some Let_def)

subsection \<open>Rows and columns\<close>

lemma derive_cols_rect:
  assumes "\<forall>r\<in>set rs. n \<le> length r"
  shows "derive_cols rs n = Inr (map (\<lambda>idx. map (\<lambda>row. row ! idx) rs) [0..<n])"
  unfolding derive_cols_def
proof (rule comprehension_total, rule ballI)
  fix idx assume "idx \<in> set [0..<n]"
  then have "\<forall>row\<in>set rs. getitem row idx = Inr (row ! idx)"
    using assms by (auto simp: getitem_def)
  then show "comprehension (\<lambda>row. getitem row idx) rs = Inr (map (\<lambda>row. row ! idx) rs)"
    by (rule comprehension_total)
qed

lemma derive_cols_lengths:
  assumes "derive_cols rs n = Inr cs"
  shows "length cs = n \<and> (\<forall>col\<in>set cs. length col = length rs)"
proof -
  have a: "list_all2 (\<lambda>idx col. comprehension (\<lambda>row. getitem row idx) rs = Inr col) [0..<n] cs"
    using assms by (simp add: derive_cols_def comprehension_Inr_iff)
  then have "length cs = n" by (auto dest: list_all2_lengthD)
  moreover have "length col = length rs" if mem: "col \<in> set cs" for col
  proof -
    obtain i where "i < length cs" "cs ! i = col"
      using mem by (auto simp: in_set_conv_nth)
    then have "comprehension (\<lambda>row. getitem row ([0..<n] ! i)) rs = Inr col"
      using a by (auto simp: list_all2_conv_all_nth)
    then show ?thesis by (auto simp: comprehension_Inr_iff dest: list_all2_lengthD)
  qed
  ultimately show ?thesis by blast
qed

lemma split_from_nonempty: "split_from sp cur s \<noteq> []"
  by (induction sp cur s rule: split_from.induct) auto

lemma read_rows_eq:
  "read_rows sp ls =
     (if sp = [] \<and> ls \<noteq> [] then Inl ValueError
      else Inr (map (\<lambda>line. split_from sp [] (str_strip line)) ls))"
  by (induction ls) (auto simp: str_split_def)

text \<open>What \<open>__init__\<close> returns, case by case.\<close>

lemma CSV_init_eq:
  "CSV_init ls s rt ct =
     (let rs = map (\<lambda>line. split_from s [] (str_strip line)) ls in
      if ls = [] then Inl IndexError
      else if s = [] then Inl ValueError
      else if \<not> (\<forall>r\<in>set rs. length r = length (hd rs)) then Inl AssertionError
      else Inr \<lparr>sep = s, rows = rs, length_of_rows = length (hd rs),
                cols = map (\<lambda>idx. map (\<lambda>row. row ! idx) rs) [0..<length (hd rs)],
                length_of_cols = length rs, row_titles = rt, col_titles = ct\<rparr>)"
proof -
  define rs where "rs = map (\<lambda>line. split_from s [] (str_strip line)) ls"
  define cs where "cs = map (\<lambda>idx. map (\<lambda>row. row ! idx) rs) [0..<length (hd rs)]"
  show ?thesis
  proof (cases "ls = [] \<or> s = [] \<or> \<not> (\<forall>r\<in>set rs. length r = length (hd rs))")
    case True
    then show ?thesis
      by (auto simp: CSV_init_def read_rows_eq all_are_the_same_length_iff getitem_def
          rs_def Let_def)
  next
    case False
    then have ne: "ls \<noteq> []" "s \<noteq> []" and uni: "\<forall>r\<in>set rs. length r = length (hd rs)"
      by auto
    have rr: "read_rows s ls = Inr rs" using ne by (simp add: read_rows_eq rs_def)
    have rs_ne: "rs \<noteq> []" using ne by (simp add: rs_def)
    then have g0: "getitem rs 0 = Inr (hd rs)" by (cases rs) (auto simp: getitem_def)
    have hd_ne: "hd rs \<noteq> []" using rs_ne by (cases ls) (auto simp: rs_def split_from_nonempty)
    have dc: "derive_cols rs (length (hd rs)) = Inr cs"
      unfolding cs_def by (rule derive_cols_rect) (simp add: uni)
    have cs_ne: "cs \<noteq> []" using hd_ne by (simp add: cs_def)
    have cs_len: "\<forall>col\<in>set cs. length col = length rs" by (auto simp: cs_def)
    then have cs_same: "all_are_the_same_length cs"
      using cs_ne by (simp add: all_are_the_same_length_iff)
    have gc0: "getitem cs 0 = Inr (hd cs)" using cs_ne by (cases cs) (auto simp: getitem_def)
    have "length (hd cs) = length rs" using cs_ne cs_len by simp
    then show ?thesis
      using ne uni rr g0 dc cs_same gc0
      by (simp add: CSV_init_def all_are_the_same_length_iff Let_def flip: rs_def cs_def)
  qed
qed

subsection \<open>What the accessors return\<close>

lemma drop_1_tl: "drop 1 xs = tl xs"
  by (cases xs) auto

lemma foldl_enumerate_skip_first:
  "foldl (\<lambda>acc (i, x). if i = 0 then acc else acc @ [f x]) [] (enumerate xs) = map f (tl xs)"
  by (simp only: foldl_skip_first enumerate_skip_first append_Nil)

lemma foldl_enumerate_skip_first_id:
  "foldl (\<lambda>acc (i, x). if i = 0 then acc else acc @ [x]) [] (enumerate xs) = tl xs"
  using foldl_enumerate_skip_first [of "\<lambda>x. x" xs] by simp

lemma comprehension_enumerate_skip_first:
  "comprehension (\<lambda>(i, x). g x) (filter (\<lambda>(i, x). i \<noteq> 0) (enumerate xs)) =
     comprehension g (tl xs)"
  by (simp only: comprehension_snd enumerate_skip_first)

lemma get_data_per_row_eq:
  "get_data_per_row_without_titles self =
     (if row_titles self \<and> col_titles self then map tl (tl (rows self))
      else if col_titles self then tl (rows self)
      else if row_titles self then map tl (rows self)
      else rows self)"
  unfolding get_data_per_row_without_titles_def foldl_enumerate_skip_first
    foldl_enumerate_skip_first_id foldl_append_map drop_1_tl
  by simp

lemma get_data_per_col_eq:
  "get_data_per_col_without_titles self =
     (if row_titles self \<and> col_titles self then map tl (tl (cols self))
      else if row_titles self then tl (cols self)
      else if col_titles self then map tl (cols self)
      else cols self)"
  unfolding get_data_per_col_without_titles_def foldl_enumerate_skip_first
    foldl_enumerate_skip_first_id foldl_append_map drop_1_tl
  by simp

text \<open>The attributes of a constructed instance.\<close>

lemma CSV_init_Inr:
  assumes "CSV_init ls s rt ct = Inr self"
  shows "rows self \<noteq> []"
    and "\<forall>row\<in>set (rows self). row \<noteq> [] \<and> length row = length_of_rows self"
    and "cols self = map (\<lambda>idx. map (\<lambda>row. row ! idx) (rows self)) [0..<length_of_rows self]"
    and "0 < length_of_rows self"
    and "length_of_cols self = length (rows self)"
    and "row_titles self = rt" and "col_titles self = ct" and "sep self = s"
proof -
  define rs where "rs = map (\<lambda>line. split_from s [] (str_strip line)) ls"
  have ne: "ls \<noteq> []" and uni: "\<forall>r\<in>set rs. length r = length (hd rs)"
    and self: "self = \<lparr>sep = s, rows = rs, length_of_rows = length (hd rs),
                cols = map (\<lambda>idx. map (\<lambda>row. row ! idx) rs) [0..<length (hd rs)],
                length_of_cols = length rs, row_titles = rt, col_titles = ct\<rparr>"
    using assms by (auto simp: CSV_init_eq Let_def rs_def split: if_splits)
  have rs_ne: "rs \<noteq> []" using ne by (simp add: rs_def)
  have cells: "\<forall>r\<in>set rs. r \<noteq> []" by (auto simp: rs_def split_from_nonempty)
  show "rows self \<noteq> []" using rs_ne by (simp add: self)
  show "\<forall>row\<in>set (rows self). row \<noteq> [] \<and> length row = length_of_rows self"
    using uni cells by (simp add: self)
  show "cols self = map (\<lambda>idx. map (\<lambda>row. row ! idx) (rows self)) [0..<length_of_rows self]"
    by (simp add: self)
  show "0 < length_of_rows self" using rs_ne cells by (cases rs) (auto simp: self)
  show "length_of_cols self = length (rows self)" by (simp add: self)
  show "row_titles self = rt" "col_titles self = ct" "sep self = s" by (simp_all add: self)
qed

lemma first_cells:
  "\<forall>x\<in>set xs. x \<noteq> [] \<Longrightarrow> comprehension (\<lambda>x. getitem x 0) xs = Inr (map hd xs)"
  by (rule comprehension_total) (auto simp: getitem_def hd_conv_nth)

lemma get_row_titles_eq:
  assumes "\<forall>row\<in>set (rows self). row \<noteq> []"
  shows "get_row_titles self =
     (if row_titles self then
        (if col_titles self then Inr (Some (map hd (tl (rows self))))
         else Inr (Some (map hd (rows self))))
      else Inr None)"
proof -
  have "\<forall>row\<in>set (tl (rows self)). row \<noteq> []"
    using assms by (cases "rows self") auto
  then show ?thesis
    using assms
    unfolding get_row_titles_def comprehension_enumerate_skip_first
    by (simp add: first_cells)
qed

lemma get_col_titles_eq:
  assumes "\<forall>col\<in>set (cols self). col \<noteq> []"
  shows "get_col_titles self =
     (if col_titles self then
        (if row_titles self then Inr (Some (map hd (tl (cols self))))
         else Inr (Some (map hd (filter (\<lambda>col. col \<noteq> []) (cols self)))))
      else Inr None)"
proof -
  have "\<forall>col\<in>set (tl (cols self)). col \<noteq> []"
    using assms by (cases "cols self") auto
  then show ?thesis
    unfolding get_col_titles_def comprehension_enumerate_skip_first
    by (simp add: first_cells)
qed

lemma CSV_init_cols_nonempty:
  assumes "CSV_init ls s rt ct = Inr self"
  shows "\<forall>col\<in>set (cols self). col \<noteq> []"
  using CSV_init_Inr(1,3) [OF assms] by auto

subsection \<open>The examples are what construction returns\<close>

lemma CSV_init_both_titles:
  "CSV_init [''t,c1,c2'', ''r1,1,2'', ''r2,3,4''] '','' True True = Inr both_titles"
  unfolding both_titles_def by code_simp

lemma CSV_init_col_titles_only:
  "CSV_init [''c1,c2'', ''1,2'', ''3,4''] '','' False True = Inr col_titles_only"
  unfolding col_titles_only_def by code_simp

lemma CSV_init_row_titles_only:
  "CSV_init [''r1,1,2'', ''r2,3,4''] '','' True False = Inr row_titles_only"
  unfolding row_titles_only_def by code_simp

lemma CSV_init_two_lines_no_titles:
  "CSV_init [''1,2'', ''3,4''] '','' False False = Inr two_lines_no_titles"
  unfolding two_lines_no_titles_def by code_simp

lemma CSV_init_one_line_col_titles:
  "CSV_init [''a,b''] '','' False True = Inr one_line_col_titles"
  unfolding one_line_col_titles_def by code_simp

section \<open>Construction\<close>

lemma read_rows_example_ragged:
  "read_rows '','' [''a,b'', ''c''] = Inr [[''a'', ''b''], [''c'']]"
  by code_simp

lemma read_rows_example_square:
  "read_rows '','' [''a,b'', ''c,d''] = Inr [[''a'', ''b''], [''c'', ''d'']]"
  by code_simp

text \<open>
  C1: let \<open>grid\<close> be the rows built by stripping every line and splitting it on the
  separator. Construction fails with \<open>AssertionError\<close> (MalformedGridError) exactly when
  the cell count of some row differs from that of the first row. The columns derived
  from any rows always have equal cell counts, so the second assertion, on the columns,
  repeats the first; and an instance that was constructed has passed both checks, on its
  rows and on the columns derived from them. The rows \<open>["a","b"]\<close> and \<open>["c"]\<close>, read
  from the lines \<open>a,b\<close> and \<open>c\<close>, raise it.
\<close>

theorem C1_malformed_grid:
  assumes "read_rows seperator file_lines = Inr grid"
  shows "((\<exists>row\<in>set grid. length row \<noteq> length (hd grid)) \<longleftrightarrow>
            CSV_init file_lines seperator has_row_titles has_col_titles = Inl AssertionError)
       \<and> (\<forall>n cs. derive_cols grid n = Inr cs \<longrightarrow> all_are_the_same_length cs)
       \<and> (\<forall>self. CSV_init file_lines seperator has_row_titles has_col_titles = Inr self \<longrightarrow>
              rows self = grid \<and> all_are_the_same_length (rows self)
              \<and> derive_cols grid (length (hd grid)) = Inr (cols self)
              \<and> all_are_the_same_length (cols self))"
proof (intro conjI allI impI)
  have grid: "grid = map (\<lambda>line. split_from seperator [] (str_strip line)) file_lines"
    and ok: "seperator \<noteq> [] \<or> file_lines = []"
    using assms by (auto simp: read_rows_eq split: if_splits)
  show "(\<exists>row\<in>set grid. length row \<noteq> length (hd grid)) \<longleftrightarrow>
          CSV_init file_lines seperator has_row_titles has_col_titles = Inl AssertionError"
    using ok by (auto simp: CSV_init_eq Let_def grid)
  show "all_are_the_same_length cs" if "derive_cols grid n = Inr cs" for n cs
    using derive_cols_lengths [OF that] by (cases cs) (auto simp: all_are_the_same_length_iff)
  fix self
  assume init: "CSV_init file_lines seperator has_row_titles has_col_titles = Inr self"
  then have uni: "\<forall>r\<in>set grid. length r = length (hd grid)"
    and self: "self = \<lparr>sep = seperator, rows = grid, length_of_rows = length (hd grid),
                cols = map (\<lambda>idx. map (\<lambda>row. row ! idx) grid) [0..<length (hd grid)],
                length_of_cols = length grid, row_titles = has_row_titles,
                col_titles = has_col_titles\<rparr>"
    by (auto simp: CSV_init_eq Let_def grid split: if_splits)
  show "rows self = grid" by (simp add: self)
  show "all_are_the_same_length (rows self)"
    using uni by (simp add: self all_are_the_same_length_iff)
  have dc: "derive_cols grid (length (hd grid)) = Inr (cols self)"
    unfolding self by (simp add: derive_cols_rect uni)
  then show "derive_cols grid (length (hd grid)) = Inr (cols self)" .
  show "all_are_the_same_length (cols self)"
    using derive_cols_lengths [OF dc] by (cases "cols self") (auto simp: all_are_the_same_length_iff)
qed

theorem C1_malformed_grid_witness:
  "read_rows '','' [''a,b'', ''c''] = Inr [[''a'', ''b''], [''c'']]
   \<and> CSV_init [''a,b'', ''c''] '','' True True = Inl AssertionError
   \<and> read_rows '','' [''a,b'', ''c,d''] = Inr [[''a'', ''b''], [''c'', ''d'']]
   \<and> CSV_init [''a,b'', ''c,d''] '','' True True =
       Inr \<lparr>sep = '','', rows = [[''a'', ''b''], [''c'', ''d'']], length_of_rows = 2,
            cols = [[''a'', ''c''], [''b'', ''d'']], length_of_cols = 2,
            row_titles = True, col_titles = True\<rparr>
   \<and> all_are_the_same_length [[''a'', ''c''], [''b'', ''d'']]"
proof -
  have init: "CSV_init [''a,b'', ''c,d''] '','' True True =
       Inr \<lparr>sep = '','', rows = [[''a'', ''b''], [''c'', ''d'']], length_of_rows = 2,
            cols = [[''a'', ''c''], [''b'', ''d'']], length_of_cols = 2,
            row_titles = True, col_titles = True\<rparr>"
    by code_simp
  have "CSV_init [''a,b'', ''c''] '','' True True = Inl AssertionError"
    using C1_malformed_grid [OF read_rows_example_ragged, of True True] by simp
  moreover have "all_are_the_same_length [[''a'', ''c''], [''b'', ''d'']]"
    using C1_malformed_grid [OF read_rows_example_square, of True True] init by simp
  ultimately show ?thesis
    using read_rows_example_ragged read_rows_example_square init by simp
qed

text \<open>
  C9: for an input of zero lines the check \<open>all_are_the_same_length\<close> is true of the
  empty sequence of rows, so the assertion does not fail, and construction ends with
  the index error of \<open>self.rows[0]\<close>, whatever the separator and the title flags.
\<close>

theorem C9_empty_input_index_error:
  "all_are_the_same_length ([] :: string list list)
   \<and> CSV_init [] seperator has_row_titles has_col_titles = Inl IndexError"
  by (simp add: all_are_the_same_length_def CSV_init_def getitem_def)

section \<open>The accessors\<close>

text \<open>
  C2: for an instance that construction returned, \<open>get_data_per_row_without_titles\<close>
  and \<open>get_data_per_col_without_titles\<close> strip the titles by the four cases of the two
  flags. With both kinds of titles row 0 goes and cell 0 of every other row
  (respectively column 0 and the first element of every other column); with column
  titles only row 0 goes, which is the first element of every column; with row titles
  only cell 0 of every row goes, which is column 0; without titles the rows and the
  columns are returned as they are. The columns are those of the rows: column \<open>j\<close> is
  the list of the cells \<open>j\<close> of the rows, in the order of the rows.
\<close>

theorem C2_data_without_titles:
  assumes "CSV_init file_lines seperator has_row_titles has_col_titles = Inr self"
  shows "get_data_per_row_without_titles self =
           (if has_row_titles \<and> has_col_titles then map tl (tl (rows self))
            else if has_col_titles then tl (rows self)
            else if has_row_titles then map tl (rows self)
            else rows self)
       \<and> get_data_per_col_without_titles self =
           (if has_row_titles \<and> has_col_titles then map tl (tl (cols self))
            else if has_col_titles then map tl (cols self)
            else if has_row_titles then tl (cols self)
            else cols self)
       \<and> length (cols self) = length (hd (rows self))
       \<and> (\<forall>j<length (cols self). cols self ! j = map (\<lambda>row. row ! j) (rows self))"
proof -
  note f = CSV_init_Inr [OF assms]
  have "length (hd (rows self)) = length_of_rows self"
    using f(1,2) by (cases "rows self") auto
  then show ?thesis
    using f(6,7) by (simp add: get_data_per_row_eq get_data_per_col_eq f(3))
qed

theorem C2_data_without_titles_witness:
  "CSV_init [''t,c1,c2'', ''r1,1,2'', ''r2,3,4''] '','' True True = Inr both_titles
   \<and> get_data_per_row_without_titles both_titles = [[''1'', ''2''], [''3'', ''4'']]
   \<and> get_data_per_col_without_titles both_titles = [[''1'', ''3''], [''2'', ''4'']]
   \<and> CSV_init [''c1,c2'', ''1,2'', ''3,4''] '','' False True = Inr col_titles_only
   \<and> get_data_per_row_without_titles col_titles_only = [[''1'', ''2''], [''3'', ''4'']]
   \<and> get_data_per_col_without_titles col_titles_only = [[''1'', ''3''], [''2'', ''4'']]
   \<and> CSV_init [''r1,1,2'', ''r2,3,4''] '','' True False = Inr row_titles_only
   \<and> get_data_per_row_without_titles row_titles_only = [[''1'', ''2''], [''3'', ''4'']]
   \<and> get_data_per_col_without_titles row_titles_only = [[''1'', ''3''], [''2'', ''4'']]
   \<and> CSV_init [''1,2'', ''3,4''] '','' False False = Inr two_lines_no_titles
   \<and> get_data_per_row_without_titles two_lines_no_titles = [[''1'', ''2''], [''3'', ''4'']]
   \<and> get_data_per_col_without_titles two_lines_no_titles = [[''1'', ''3''], [''2'', ''4'']]"
proof -
  have "get_data_per_row_without_titles both_titles = [[''1'', ''2''], [''3'', ''4'']]"
    "get_data_per_col_without_titles both_titles = [[''1'', ''3''], [''2'', ''4'']]"
    using C2_data_without_titles [OF CSV_init_both_titles]
    by (simp_all add: both_titles_def)
  moreover have "get_data_per_row_without_titles col_titles_only = [[''1'', ''2''], [''3'', ''4'']]"
    "get_data_per_col_without_titles col_titles_only = [[''1'', ''3''], [''2'', ''4'']]"
    using C2_data_without_titles [OF CSV_init_col_titles_only]
    by (simp_all add: col_titles_only_def)
  moreover have "get_data_per_row_without_titles row_titles_only = [[''1'', ''2''], [''3'', ''4'']]"
    "get_data_per_col_without_titles row_titles_only = [[''1'', ''3''], [''2'', ''4'']]"
    using C2_data_without_titles [OF CSV_init_row_titles_only]
    by (simp_all add: row_titles_only_def)
  moreover have "get_data_per_row_without_titles two_lines_no_titles = [[''1'', ''2''], [''3'', ''4'']]"
    "get_data_per_col_without_titles two_lines_no_titles = [[''1'', ''3''], [''2'', ''4'']]"
    using C2_data_without_titles [OF CSV_init_two_lines_no_titles]
    by (simp_all add: two_lines_no_titles_def)
  ultimately show ?thesis
    using CSV_init_both_titles CSV_init_col_titles_only CSV_init_row_titles_only
      CSV_init_two_lines_no_titles
    by simp
qed

text \<open>
  C5: for an instance that construction returned, \<open>get_row_titles\<close> returns the first
  cell of every row but row 0 when both flags are set, the first cell of every row when
  only \<open>has_row_titles\<close> is set, and \<open>None\<close> when \<open>has_row_titles\<close> is not set,
  whatever \<open>has_col_titles\<close> is. Every row has a first cell.
\<close>

theorem C5_get_row_titles:
  assumes "CSV_init file_lines seperator has_row_titles has_col_titles = Inr self"
  shows "get_row_titles self =
           (if has_row_titles then
              (if has_col_titles then Inr (Some (map hd (tl (rows self))))
               else Inr (Some (map hd (rows self))))
            else Inr None)
       \<and> (\<forall>row\<in>set (rows self). row \<noteq> [])"
proof -
  note f = CSV_init_Inr [OF assms]
  have ne: "\<forall>row\<in>set (rows self). row \<noteq> []" using f(2) by simp
  then show ?thesis using f(6,7) by (simp add: get_row_titles_eq)
qed

theorem C5_get_row_titles_witness:
  "CSV_init [''t,c1,c2'', ''r1,1,2'', ''r2,3,4''] '','' True True = Inr both_titles
   \<and> get_row_titles both_titles = Inr (Some [''r1'', ''r2''])
   \<and> CSV_init [''r1,1,2'', ''r2,3,4''] '','' True False = Inr row_titles_only
   \<and> get_row_titles row_titles_only = Inr (Some [''r1'', ''r2''])
   \<and> CSV_init [''c1,c2'', ''1,2'', ''3,4''] '','' False True = Inr col_titles_only
   \<and> get_row_titles col_titles_only = Inr None
   \<and> CSV_init [''1,2'', ''3,4''] '','' False False = Inr two_lines_no_titles
   \<and> get_row_titles two_lines_no_titles = Inr None"
proof -
  have "get_row_titles both_titles = Inr (Some [''r1'', ''r2''])"
    using C5_get_row_titles [OF CSV_init_both_titles] by (simp add: both_titles_def)
  moreover have "get_row_titles row_titles_only = Inr (Some [''r1'', ''r2''])"
    using C5_get_row_titles [OF CSV_init_row_titles_only] by (simp add: row_titles_only_def)
  moreover have "get_row_titles col_titles_only = Inr None"
    using C5_get_row_titles [OF CSV_init_col_titles_only] by simp
  moreover have "get_row_titles two_lines_no_titles = Inr None"
    using C5_get_row_titles [OF CSV_init_two_lines_no_titles] by simp
  ultimately show ?thesis
    using CSV_init_both_titles CSV_init_col_titles_only CSV_init_row_titles_only
      CSV_init_two_lines_no_titles
    by simp
qed

text \<open>
  C6: for an instance that construction returned, \<open>get_col_titles\<close> returns the first
  cell of every column but column 0 when both flags are set, the first cell of every
  column that is not empty when only \<open>has_col_titles\<close> is set, and \<open>None\<close> when
  \<open>has_col_titles\<close> is not set, whatever \<open>has_row_titles\<close> is. No column of such an
  instance is empty.
\<close>

theorem C6_get_col_titles:
  assumes "CSV_init file_lines seperator has_row_titles has_col_titles = Inr self"
  shows "get_col_titles self =
           (if has_col_titles then
              (if has_row_titles then Inr (Some (map hd (tl (cols self))))
               else Inr (Some (map hd (filter (\<lambda>col. col \<noteq> []) (cols self)))))
            else Inr None)
       \<and> (\<forall>col\<in>set (cols self). col \<noteq> [])"
proof -
  note f = CSV_init_Inr [OF assms]
  have ne: "\<forall>col\<in>set (cols self). col \<noteq> []" by (rule CSV_init_cols_nonempty [OF assms])
  then show ?thesis using f(6,7) by (simp add: get_col_titles_eq)
qed

theorem C6_get_col_titles_witness:
  "CSV_init [''t,c1,c2'', ''r1,1,2'', ''r2,3,4''] '','' True True = Inr both_titles
   \<and> get_col_titles both_titles = Inr (Some [''c1'', ''c2''])
   \<and> CSV_init [''c1,c2'', ''1,2'', ''3,4''] '','' False True = Inr col_titles_only
   \<and> get_col_titles col_titles_only = Inr (Some [''c1'', ''c2''])
   \<and> CSV_init [''r1,1,2'', ''r2,3,4''] '','' True False = Inr row_titles_only
   \<and> get_col_titles row_titles_only = Inr None
   \<and> CSV_init [''1,2'', ''3,4''] '','' False False = Inr two_lines_no_titles
   \<and> get_col_titles two_lines_no_titles = Inr None"
proof -
  have "get_col_titles both_titles = Inr (Some [''c1'', ''c2''])"
    using C6_get_col_titles [OF CSV_init_both_titles] by (simp add: both_titles_def)
  moreover have "get_col_titles col_titles_only = Inr (Some [''c1'', ''c2''])"
    using C6_get_col_titles [OF CSV_init_col_titles_only] by (simp add: col_titles_only_def)
  moreover have "get_col_titles row_titles_only = Inr None"
    using C6_get_col_titles [OF CSV_init_row_titles_only] by simp
  moreover have "get_col_titles two_lines_no_titles = Inr None"
    using C6_get_col_titles [OF CSV_init_two_lines_no_titles] by simp
  ultimately show ?thesis
    using CSV_init_both_titles CSV_init_col_titles_only CSV_init_row_titles_only
      CSV_init_two_lines_no_titles
    by simp
qed

section \<open>Titles and data\<close>

text \<open>
  C7 as it is stated fails without titles: read from the lines \<open>1,2\<close> and \<open>3,4\<close> with
  both flags unset, \<open>get_row_titles\<close> and \<open>get_col_titles\<close> return \<open>None\<close>, of length 0
  under \<open>or []\<close>, and there are two data rows and two data columns.
\<close>

theorem C7_titles_count_counterexample:
  "CSV_init [''1,2'', ''3,4''] '','' False False = Inr two_lines_no_titles
   \<and> get_row_titles two_lines_no_titles = Inr None
   \<and> length (or_empty (None :: string list option)) = 0
   \<and> length (get_data_per_row_without_titles two_lines_no_titles) = 2
   \<and> get_col_titles two_lines_no_titles = Inr None
   \<and> length (get_data_per_col_without_titles two_lines_no_titles) = 2"
  using CSV_init_two_lines_no_titles
  by (simp add: two_lines_no_titles_def get_row_titles_def get_col_titles_def or_empty_def
      get_data_per_row_without_titles_def get_data_per_col_without_titles_def)

text \<open>
  C7, amended: for an instance that construction returned, when \<open>has_row_titles\<close> is
  set the row titles are as many as the rows \<open>get_data_per_row_without_titles\<close> returns,
  and when \<open>has_col_titles\<close> is set the column titles are as many as the columns
  \<open>get_data_per_col_without_titles\<close> returns. When a flag is not set, the titles of that
  kind are \<open>None\<close>.
\<close>

theorem C7_titles_count:
  assumes "CSV_init file_lines seperator has_row_titles has_col_titles = Inr self"
  shows "(has_row_titles \<longrightarrow>
            (\<exists>titles. get_row_titles self = Inr (Some titles)
               \<and> length (or_empty (Some titles)) = length (get_data_per_row_without_titles self)))
       \<and> (has_col_titles \<longrightarrow>
            (\<exists>titles. get_col_titles self = Inr (Some titles)
               \<and> length (or_empty (Some titles)) = length (get_data_per_col_without_titles self)))
       \<and> (\<not> has_row_titles \<longrightarrow> get_row_titles self = Inr None)
       \<and> (\<not> has_col_titles \<longrightarrow> get_col_titles self = Inr None)"
proof -
  note f = CSV_init_Inr [OF assms]
  have rne: "\<forall>row\<in>set (rows self). row \<noteq> []" using f(2) by simp
  have cne: "\<forall>col\<in>set (cols self). col \<noteq> []" by (rule CSV_init_cols_nonempty [OF assms])
  have unfiltered: "filter (\<lambda>col. col \<noteq> []) (cols self) = cols self"
    using cne by (simp add: filter_id_conv)
  have or_Some: "or_empty (Some ts) = ts" for ts :: "string list"
    by (simp add: or_empty_def)
  show ?thesis
    using f(6,7)
    by (simp add: get_row_titles_eq [OF rne] get_col_titles_eq [OF cne] unfiltered or_Some
        get_data_per_row_eq get_data_per_col_eq)
qed

theorem C7_titles_count_witness:
  "CSV_init [''t,c1,c2'', ''r1,1,2'', ''r2,3,4''] '','' True True = Inr both_titles
   \<and> get_row_titles both_titles = Inr (Some [''r1'', ''r2''])
   \<and> length (get_data_per_row_without_titles both_titles) = 2
   \<and> get_col_titles both_titles = Inr (Some [''c1'', ''c2''])
   \<and> length (get_data_per_col_without_titles both_titles) = 2
   \<and> CSV_init [''1,2'', ''3,4''] '','' False False = Inr two_lines_no_titles
   \<and> get_row_titles two_lines_no_titles = Inr None
   \<and> get_col_titles two_lines_no_titles = Inr None"
proof -
  have rt: "get_row_titles both_titles = Inr (Some [''r1'', ''r2''])"
    and ct: "get_col_titles both_titles = Inr (Some [''c1'', ''c2''])"
    by (simp_all add: both_titles_def get_row_titles_eq get_col_titles_eq)
  have "length (get_data_per_row_without_titles both_titles) = 2"
    "length (get_data_per_col_without_titles both_titles) = 2"
    using C7_titles_count [OF CSV_init_both_titles] rt ct
    by (simp_all add: or_empty_def)
  moreover have "get_row_titles two_lines_no_titles = Inr None"
    "get_col_titles two_lines_no_titles = Inr None"
    using C7_titles_count [OF CSV_init_two_lines_no_titles] by simp_all
  ultimately show ?thesis
    using rt ct CSV_init_both_titles CSV_init_two_lines_no_titles by simp
qed

subsection \<open>Columns of a list of rows\<close>

lemma columns_tl_cells:
  assumes "\<forall>r\<in>set rs. length r = n"
  shows "map (\<lambda>j. map (\<lambda>r. r ! j) (map tl rs)) [0..<n - 1] =
           tl (map (\<lambda>j. map (\<lambda>r. r ! j) rs) [0..<n])"
proof -
  have "tl (map (\<lambda>j. map (\<lambda>r. r ! j) rs) [0..<n]) = map (\<lambda>j. map (\<lambda>r. r ! j) rs) (tl [0..<n])"
    by (simp only: map_tl)
  also have "tl [0..<n] = map Suc [0..<n - 1]"
    by (cases n) (simp_all add: map_Suc_upt upt_conv_Cons del: upt_Suc)
  also have "map (\<lambda>j. map (\<lambda>r. r ! j) rs) (map Suc [0..<n - 1]) =
      map (\<lambda>j. map (\<lambda>r. r ! j) (map tl rs)) [0..<n - 1]"
    using assms by (auto simp: nth_tl)
  finally show ?thesis by simp
qed

lemma transposed_rect:
  assumes "rs \<noteq> []" and "\<forall>r\<in>set rs. length r = n"
  shows "transposed rs = Inr (map (\<lambda>j. map (\<lambda>r. r ! j) rs) [0..<n])"
proof -
  have "getitem rs 0 = Inr (hd rs)" using assms(1) by (cases rs) (auto simp: getitem_def)
  moreover have "length (hd rs) = n" using assms by (cases rs) auto
  ultimately show ?thesis
    using assms(2) by (simp add: transposed_def derive_cols_rect)
qed

lemma columns_tl_rows:
  "map (\<lambda>j. map (\<lambda>r. r ! j) (tl rs)) js = map tl (map (\<lambda>j. map (\<lambda>r. r ! j) rs) js)"
  by (simp add: map_tl)

lemma transpose_rect:
  assumes "rs \<noteq> []" and "\<forall>r\<in>set rs. length r = n"
  shows "transpose rs = map (\<lambda>j. map (\<lambda>r. r ! j) rs) [0..<n]"
proof -
  have "transpose rs = map (\<lambda>i. map (\<lambda>j. rs ! j ! i) [0..<length rs]) [0..<n]"
    by (rule transpose_rectangle) (use assms in auto)
  moreover have "map (\<lambda>j. rs ! j ! i) [0..<length rs] = map (\<lambda>r. r ! i) rs" for i
  proof -
    have "map (\<lambda>r. r ! i) rs = map (\<lambda>r. r ! i) (map ((!) rs) [0..<length rs])"
      by (simp only: map_nth)
    also have "\<dots> = map (\<lambda>j. rs ! j ! i) [0..<length rs]"
      by (simp only: map_map o_def)
    finally show ?thesis by (rule sym)
  qed
  ultimately show ?thesis by simp
qed

text \<open>The columns of the data rows are the data columns.\<close>

lemma data_cols_of_data_rows:
  assumes "CSV_init ls s rt ct = Inr self"
  shows "map (\<lambda>j. map (\<lambda>r. r ! j) (get_data_per_row_without_titles self))
           [0..<(if rt then length_of_rows self - 1 else length_of_rows self)] =
         get_data_per_col_without_titles self"
proof -
  note f = CSV_init_Inr [OF assms]
  define n where "n = length_of_rows self"
  have len: "\<forall>row\<in>set (rows self). length row = n" using f(2) by (simp add: n_def)
  then have len_tl: "\<forall>row\<in>set (tl (rows self)). length row = n"
    by (cases "rows self") auto
  have cols: "cols self = map (\<lambda>j. map (\<lambda>r. r ! j) (rows self)) [0..<n]"
    using f(3) by (simp add: n_def)
  show ?thesis
  proof (cases rt)
    case True
    note rt = this
    show ?thesis
    proof (cases ct)
      case True
      have "map (\<lambda>j. map (\<lambda>r. r ! j) (map tl (tl (rows self)))) [0..<n - 1] =
              tl (map (\<lambda>j. map (\<lambda>r. r ! j) (tl (rows self))) [0..<n])"
        by (rule columns_tl_cells [OF len_tl])
      also have "\<dots> = tl (map tl (cols self))"
        by (simp only: columns_tl_rows cols)
      also have "\<dots> = map tl (tl (cols self))"
        by (simp only: map_tl)
      finally show ?thesis
        using rt True f(6,7) by (simp add: get_data_per_row_eq get_data_per_col_eq n_def)
    next
      case False
      have "map (\<lambda>j. map (\<lambda>r. r ! j) (map tl (rows self))) [0..<n - 1] = tl (cols self)"
        by (simp only: columns_tl_cells [OF len] cols)
      then show ?thesis
        using rt False f(6,7) by (simp add: get_data_per_row_eq get_data_per_col_eq n_def)
    qed
  next
    case False
    note rt = this
    show ?thesis
    proof (cases ct)
      case True
      have "map (\<lambda>j. map (\<lambda>r. r ! j) (tl (rows self))) [0..<n] = map tl (cols self)"
        by (simp only: columns_tl_rows cols)
      then show ?thesis
        using rt True f(6,7) by (simp add: get_data_per_row_eq get_data_per_col_eq n_def)
    next
      case False
      then show ?thesis
        using rt f(6,7) cols by (simp add: get_data_per_row_eq get_data_per_col_eq n_def)
    qed
  qed
qed

lemma data_rows_lengths:
  assumes "CSV_init ls s rt ct = Inr self"
  shows "\<forall>row\<in>set (get_data_per_row_without_titles self).
           length row = (if rt then length_of_rows self - 1 else length_of_rows self)"
proof -
  note f = CSV_init_Inr [OF assms]
  have len: "\<forall>row\<in>set (rows self). length row = length_of_rows self" using f(2) by simp
  then have len_tl: "\<forall>row\<in>set (tl (rows self)). length row = length_of_rows self"
    by (cases "rows self") auto
  show ?thesis
    using len len_tl f(6,7) by (auto simp: get_data_per_row_eq)
qed

text \<open>
  C3, amended: for an instance that construction returned, whenever
  \<open>get_data_per_row_without_titles\<close> returns at least one row, its transposition is what
  \<open>get_data_per_col_without_titles\<close> returns, for the transposition of \<open>__init__\<close> and
  for \<open>transpose\<close> of the library alike. It returns no row only for a grid of a single
  row with \<open>has_col_titles\<close> set. The transposition of \<open>rows\<close> is \<open>cols\<close>.
\<close>

theorem C3_transposed_rows_are_cols:
  assumes "CSV_init file_lines seperator has_row_titles has_col_titles = Inr self"
  shows "(get_data_per_row_without_titles self \<noteq> [] \<longrightarrow>
            transposed (get_data_per_row_without_titles self) =
              Inr (get_data_per_col_without_titles self)
            \<and> transpose (get_data_per_row_without_titles self) =
              get_data_per_col_without_titles self)
       \<and> (get_data_per_row_without_titles self = [] \<longleftrightarrow>
            has_col_titles \<and> length (rows self) = 1)
       \<and> transposed (rows self) = Inr (cols self)"
proof (intro conjI impI)
  note f = CSV_init_Inr [OF assms]
  have len: "\<forall>row\<in>set (rows self). length row = length_of_rows self" using f(2) by simp
  show "transposed (rows self) = Inr (cols self)"
    using transposed_rect [OF f(1) len] by (simp add: f(3))
  show "get_data_per_row_without_titles self = [] \<longleftrightarrow>
          has_col_titles \<and> length (rows self) = 1"
    using f(1,6,7) by (cases "rows self") (auto simp: get_data_per_row_eq)
  assume ne: "get_data_per_row_without_titles self \<noteq> []"
  show "transposed (get_data_per_row_without_titles self) =
          Inr (get_data_per_col_without_titles self)"
    using transposed_rect [OF ne data_rows_lengths [OF assms]]
    by (simp only: data_cols_of_data_rows [OF assms])
  show "transpose (get_data_per_row_without_titles self) =
          get_data_per_col_without_titles self"
    using transpose_rect [OF ne data_rows_lengths [OF assms]]
    by (simp only: data_cols_of_data_rows [OF assms])
qed

text \<open>
  C3 as it is stated fails on a grid of one row with column titles: read from the line
  \<open>a,b\<close>, there is no data row, and there are two data columns, both empty. The
  transposition of no rows is not these two columns: that of \<open>__init__\<close> raises
  \<open>IndexError\<close>, and \<open>transpose\<close> returns no column.
\<close>

theorem C3_transposed_rows_are_cols_counterexample:
  "CSV_init [''a,b''] '','' False True = Inr one_line_col_titles
   \<and> get_data_per_row_without_titles one_line_col_titles = []
   \<and> get_data_per_col_without_titles one_line_col_titles = [[], []]
   \<and> transposed (get_data_per_row_without_titles one_line_col_titles) = Inl IndexError
   \<and> transpose (get_data_per_row_without_titles one_line_col_titles) = []"
  using CSV_init_one_line_col_titles
  by (simp add: get_data_per_row_eq get_data_per_col_eq one_line_col_titles_def
      transposed_def getitem_def)

theorem C3_transposed_rows_are_cols_witness:
  "CSV_init [''t,c1,c2'', ''r1,1,2'', ''r2,3,4''] '','' True True = Inr both_titles
   \<and> get_data_per_row_without_titles both_titles = [[''1'', ''2''], [''3'', ''4'']]
   \<and> transposed [[''1'', ''2''], [''3'', ''4'']] = Inr [[''1'', ''3''], [''2'', ''4'']]
   \<and> get_data_per_col_without_titles both_titles = [[''1'', ''3''], [''2'', ''4'']]"
proof -
  have d: "get_data_per_row_without_titles both_titles = [[''1'', ''2''], [''3'', ''4'']]"
    by (simp add: get_data_per_row_eq both_titles_def)
  then have ne: "get_data_per_row_without_titles both_titles \<noteq> []" by simp
  have c: "get_data_per_col_without_titles both_titles = [[''1'', ''3''], [''2'', ''4'']]"
    by (simp add: get_data_per_col_eq both_titles_def)
  show ?thesis
    using C3_transposed_rows_are_cols [OF CSV_init_both_titles] ne d c
      CSV_init_both_titles by simp
qed

section \<open>Parsing the cells\<close>

lemma py_float_error: "py_float s = Inl e \<Longrightarrow> e = ValueError"
  by (cases e) (auto simp: py_float_def split: option.splits prod.splits)

lemma replace_from_char:
  "replace_from [a] [b] s = map (\<lambda>c. if c = a then b else c) s"
  by (induction s) auto

lemma str_replace_comma:
  "str_replace val '','' ''.'' = map (\<lambda>c. if c = CHR '','' then CHR ''.'' else c) val"
  by (simp add: str_replace_def replace_from_char)

text \<open>A string that \<open>float\<close> accepts has at most one decimal point.\<close>

lemma is_digit_point [simp]: "\<not> is_digit (CHR ''.'')"
  by (simp add: is_digit_def)

lemma float_isspace_point [simp]: "\<not> float_isspace (CHR ''.'')"
  by (simp add: float_isspace_def)

lemma count_dropWhile:
  "\<not> P a \<Longrightarrow> count_list (dropWhile P s) a = count_list s a"
  by (induction s) auto

lemma count_list_rev: "count_list (rev s) a = count_list s a"
  by (induction s) auto

lemma count_float_strip:
  "count_list (float_strip s) (CHR ''.'') = count_list s (CHR ''.'')"
  by (simp add: float_strip_def count_list_rev count_dropWhile)

lemma count_remove_underscores:
  "remove_underscores prev s = Some t \<Longrightarrow> count_list t (CHR ''.'') = count_list s (CHR ''.'')"
  by (induction prev s arbitrary: t rule: remove_underscores.induct)
    (auto split: if_splits)

lemma count_parse_sign:
  "parse_sign t = (neg, r) \<Longrightarrow> count_list r (CHR ''.'') = count_list t (CHR ''.'')"
  by (auto simp: parse_sign_def split: list.splits if_splits)

lemma count_digits: "list_all is_digit ds \<Longrightarrow> count_list ds (CHR ''.'') = 0"
  by (induction ds) auto

lemma count_takeWhile_digits: "count_list (takeWhile is_digit s) (CHR ''.'') = 0"
  by (rule count_digits) (auto simp: list_all_iff dest: set_takeWhileD)

lemma count_split_digits:
  "count_list s (CHR ''.'') = count_list (dropWhile is_digit s) (CHR ''.'')"
  by (simp add: count_dropWhile)

lemma count_parse_exponent:
  "parse_exponent s = Some e \<Longrightarrow> count_list s (CHR ''.'') = 0"
  by (auto simp: parse_exponent_def count_digits split: list.splits if_splits prod.splits
      dest!: count_parse_sign)

lemma count_parse_number:
  assumes "parse_number r = Some q"
  shows "count_list r (CHR ''.'') \<le> 1"
proof -
  define r1 where "r1 = dropWhile is_digit r"
  have c: "count_list r (CHR ''.'') = count_list r1 (CHR ''.'')"
    unfolding r1_def by (rule count_split_digits)
  show ?thesis
  proof (cases r1)
    case Nil
    then show ?thesis using c by simp
  next
    case (Cons ch t)
    show ?thesis
    proof (cases "ch = CHR ''.''")
      case True
      then have "\<exists>e. parse_exponent (dropWhile is_digit t) = Some e"
        using assms Cons
        by (auto simp: parse_number_def Let_def r1_def [symmetric] split: option.splits if_splits)
      then have "count_list (dropWhile is_digit t) (CHR ''.'') = 0"
        using count_parse_exponent by blast
      then have "count_list t (CHR ''.'') = 0"
        using count_split_digits [of t] by simp
      then show ?thesis using c Cons True by simp
    next
      case False
      then have "\<exists>e. parse_exponent r1 = Some e"
        using assms Cons
        by (auto simp: parse_number_def Let_def r1_def [symmetric] split: option.splits if_splits)
      then have "count_list r1 (CHR ''.'') = 0"
        using count_parse_exponent by blast
      then show ?thesis using c by simp
    qed
  qed
qed

lemma count_parse_inf_or_nan:
  assumes "parse_inf_or_nan t = Some v"
  shows "count_list t (CHR ''.'') = 0"
proof -
  obtain neg r where ps: "parse_sign t = (neg, r)" by (cases "parse_sign t")
  have "map to_lower r = ''inf'' \<or> map to_lower r = ''infinity'' \<or> map to_lower r = ''nan''"
    using assms ps by (auto simp: parse_inf_or_nan_def Let_def split: if_splits)
  then have "CHR ''.'' \<notin> set (map to_lower r)" by auto
  moreover have "to_lower (CHR ''.'') = CHR ''.''" by (simp add: to_lower_def)
  ultimately have "CHR ''.'' \<notin> set r" by (metis image_eqI list.set_map)
  then show ?thesis using count_parse_sign [OF ps] by (simp add: count_list_0_iff)
qed

lemma py_float_points:
  assumes "py_float s = Inr x"
  shows "count_list s (CHR ''.'') \<le> 1"
proof -
  obtain t where t: "remove_underscores (CHR 0x00) (float_strip s) = Some t"
    using assms by (auto simp: py_float_def split: option.splits)
  obtain neg r where ps: "parse_sign t = (neg, r)" by (cases "parse_sign t")
  have eq: "count_list s (CHR ''.'') = count_list t (CHR ''.'')"
    using count_remove_underscores [OF t] by (simp add: count_float_strip)
  show ?thesis
  proof (cases "parse_number r")
    case (Some q)
    then show ?thesis
      using count_parse_number [OF Some] count_parse_sign [OF ps] eq by simp
  next
    case None
    then have "\<exists>v. parse_inf_or_nan t = Some v"
      using assms t ps by (auto simp: py_float_def split: option.splits)
    then show ?thesis using count_parse_inf_or_nan eq by auto
  qed
qed

lemma count_replaced_commas:
  "count_list (map (\<lambda>c. if c = CHR '','' then CHR ''.'' else c) val) (CHR ''.'') =
     count_list val (CHR '','') + count_list val (CHR ''.'')"
  by (induction val) auto

lemma two_commas_fail:
  assumes "2 \<le> count_list val (CHR '','')"
  shows "parse_data [[val]] = Inl ValueError"
proof (cases "py_float (str_replace val '','' ''.'')")
  case (Inl e)
  then show ?thesis using py_float_error [OF Inl] by (simp add: parse_data_def)
next
  case (Inr x)
  then show ?thesis
    using py_float_points [OF Inr] assms by (simp add: str_replace_comma count_replaced_commas)
qed

lemma comprehension_fails_iff:
  "(\<exists>e. comprehension f xs = Inl e) \<longleftrightarrow> (\<exists>x\<in>set xs. \<exists>e. f x = Inl e)"
  by (induction xs) (auto split: sum.splits)

lemma parse_data_error: "parse_data cells = Inl e \<Longrightarrow> e = ValueError"
  unfolding parse_data_def
  by (auto dest!: comprehension_Inl dest: py_float_error)

lemma parse_data_fails_iff:
  "(\<exists>e. parse_data cells = Inl e) \<longleftrightarrow>
     (\<exists>nested\<in>set cells. \<exists>val\<in>set nested. \<exists>e. py_float (str_replace val '','' ''.'') = Inl e)"
  unfolding parse_data_def comprehension_fails_iff by blast

lemma parse_data_example_1_5:
  "parse_data [[''1,5'']] = Inr [[Finite (3 / 2)]]"
  by code_simp

lemma parse_data_example_1_5_point:
  "parse_data [[''1.5'']] = Inr [[Finite (3 / 2)]]"
  by code_simp

lemma parse_data_example_3_14:
  "parse_data [[''3,14'']] = Inr [[Finite (7070651414971679 / 2251799813685248)]]"
  by code_simp

lemma py_float_example_3_14:
  "py_float ''3.14'' = Inr (Finite (7070651414971679 / 2251799813685248))"
  by code_simp

lemma binary64_example_3_14:
  "binary64 (314 / 100) = Finite (7070651414971679 / 2251799813685248)"
  by code_simp

lemma parse_data_example_1_000:
  "parse_data [[''1,000'']] = Inr [[Finite 1]]"
  by code_simp

lemma py_float_example_1000:
  "py_float ''1000'' = Inr (Finite 1000)"
  by code_simp

lemma parse_data_example_1_000_5:
  "parse_data [[''1,000,5'']] = Inl ValueError"
  by code_simp

lemma py_float_example_minus_2: "py_float (str_replace ''-2'' '','' ''.'') = Inr (Finite (- 2))"
  by code_simp

lemma py_float_example_1_5: "py_float (str_replace ''1,5'' '','' ''.'') = Inr (Finite (3 / 2))"
  by code_simp

lemma py_float_example_x: "py_float (str_replace ''x'' '','' ''.'') = Inl ValueError"
  by code_simp

text \<open>
  C4: \<open>parse_data\<close> returns \<open>floats\<close> exactly when \<open>floats\<close> has the shape of the
  nested list of cells and holds, cell by cell, the float that \<open>float\<close> returns for the
  cell with \<open>,\<close> replaced by \<open>.\<close>; it raises exactly when \<open>float\<close> raises for some
  cell after the replacement, and what it raises is \<open>ValueError\<close> (NumberFormatError).
  The cells \<open>1,5\<close> and \<open>1.5\<close> both give the float \<open>1.5\<close>, and \<open>3,14\<close> gives the float
  that \<open>3.14\<close> gives, the binary64 number nearest to 314/100.
\<close>

theorem C4_parse_data:
  "(parse_data cells = Inr floats \<longleftrightarrow>
      list_all2 (list_all2 (\<lambda>val x. py_float (str_replace val '','' ''.'') = Inr x)) cells floats)
   \<and> (parse_data cells = Inl e \<longleftrightarrow>
        e = ValueError
        \<and> (\<exists>nested\<in>set cells. \<exists>val\<in>set nested.
              py_float (str_replace val '','' ''.'') = Inl ValueError))
   \<and> parse_data [[''1,5'']] = Inr [[Finite (3 / 2)]]
   \<and> parse_data [[''1.5'']] = Inr [[Finite (3 / 2)]]
   \<and> parse_data [[''3,14'']] = Inr [[Finite (7070651414971679 / 2251799813685248)]]
   \<and> py_float ''3.14'' = Inr (Finite (7070651414971679 / 2251799813685248))
   \<and> binary64 (314 / 100) = Finite (7070651414971679 / 2251799813685248)"
proof -
  have "parse_data cells = Inr floats \<longleftrightarrow>
      list_all2 (list_all2 (\<lambda>val x. py_float (str_replace val '','' ''.'') = Inr x)) cells floats"
    by (simp add: parse_data_def comprehension_Inr_iff)
  moreover have "parse_data cells = Inl e \<longleftrightarrow>
        e = ValueError
        \<and> (\<exists>nested\<in>set cells. \<exists>val\<in>set nested.
              py_float (str_replace val '','' ''.'') = Inl ValueError)"
  proof
    assume l: "parse_data cells = Inl e"
    then have "\<exists>nested\<in>set cells. \<exists>val\<in>set nested. \<exists>e. py_float (str_replace val '','' ''.'') = Inl e"
      using parse_data_fails_iff by blast
    then show "e = ValueError
        \<and> (\<exists>nested\<in>set cells. \<exists>val\<in>set nested.
              py_float (str_replace val '','' ''.'') = Inl ValueError)"
      using parse_data_error [OF l] py_float_error by blast
  next
    assume r: "e = ValueError
        \<and> (\<exists>nested\<in>set cells. \<exists>val\<in>set nested.
              py_float (str_replace val '','' ''.'') = Inl ValueError)"
    then obtain e' where "parse_data cells = Inl e'"
      using parse_data_fails_iff by blast
    then show "parse_data cells = Inl e"
      using r parse_data_error by blast
  qed
  ultimately show ?thesis
    using parse_data_example_1_5 parse_data_example_1_5_point parse_data_example_3_14
      py_float_example_3_14 binary64_example_3_14
    by simp
qed

theorem C4_parse_data_witness:
  "parse_data [[''1,5'', ''-2''], [''-2'', ''1,5'']] =
     Inr [[Finite (3 / 2), Finite (- 2)], [Finite (- 2), Finite (3 / 2)]]
   \<and> parse_data [[''1,5'', ''-2''], [''x'']] = Inl ValueError"
proof -
  have "parse_data [[''1,5'', ''-2''], [''-2'', ''1,5'']] =
     Inr [[Finite (3 / 2), Finite (- 2)], [Finite (- 2), Finite (3 / 2)]]"
    using C4_parse_data [of "[[''1,5'', ''-2''], [''-2'', ''1,5'']]"
        "[[Finite (3 / 2), Finite (- 2)], [Finite (- 2), Finite (3 / 2)]]"]
      py_float_example_minus_2 py_float_example_1_5
    by simp
  moreover have "parse_data [[''1,5'', ''-2''], [''x'']] = Inl ValueError"
    using C4_parse_data [of "[[''1,5'', ''-2''], [''x'']]" _ ValueError] py_float_example_x
    by simp
  ultimately show ?thesis by simp
qed

text \<open>
  C10: the replacement turns every \<open>,\<close> of a cell into \<open>.\<close>. So the cell \<open>1,000\<close> is
  parsed to the float \<open>1.0\<close>, not to the float \<open>1000.0\<close> that \<open>1000\<close> gives, and the
  cell \<open>1,000,5\<close> raises, as every nested list does that holds a cell with two commas
  or more.
\<close>

theorem C10_every_comma_replaced:
  "str_replace val '','' ''.'' = map (\<lambda>c. if c = CHR '','' then CHR ''.'' else c) val
   \<and> parse_data [[''1,000'']] = Inr [[Finite 1]]
   \<and> py_float ''1000'' = Inr (Finite 1000)
   \<and> parse_data [[''1,000,5'']] = Inl ValueError
   \<and> (nested \<in> set cells \<and> val \<in> set nested \<and> 2 \<le> count_list val (CHR '','') \<longrightarrow>
        parse_data cells = Inl ValueError)"
proof -
  have "parse_data cells = Inl ValueError"
    if "nested \<in> set cells" "val \<in> set nested" "2 \<le> count_list val (CHR '','')"
  proof -
    have "parse_data [[val]] = Inl ValueError" by (rule two_commas_fail [OF that(3)])
    then have "\<exists>e. py_float (str_replace val '','' ''.'') = Inl e"
      using parse_data_fails_iff [of "[[val]]"] by auto
    then have "\<exists>e. parse_data cells = Inl e"
      using that(1,2) parse_data_fails_iff [of cells] by blast
    then show ?thesis using parse_data_error by blast
  qed
  then show ?thesis
    using str_replace_comma parse_data_example_1_000 py_float_example_1000
      parse_data_example_1_000_5
    by simp
qed

theorem C10_every_comma_replaced_witness:
  "str_replace ''1,000,5'' '','' ''.'' = ''1.000.5''
   \<and> count_list ''1,000,5'' (CHR '','') = 2
   \<and> parse_data [[''7'', ''1,000,5'']] = Inl ValueError"
proof -
  have c: "count_list ''1,000,5'' (CHR '','') = 2" by simp
  have "parse_data [[''7'', ''1,000,5'']] = Inl ValueError"
    using C10_every_comma_replaced [of "''1,000,5''" "[''7'', ''1,000,5'']" "[[''7'', ''1,000,5'']]"] c
    by simp
  moreover have "str_replace ''1,000,5'' '','' ''.'' = ''1.000.5''"
    using C10_every_comma_replaced [of "''1,000,5''"] by simp
  ultimately show ?thesis using c by simp
qed

section \<open>The instance in a store\<close>

subsection \<open>The store only grows\<close>

lemma prefix_new: "new h ob = (a, h') \<Longrightarrow> prefix h h' \<and> a = length h \<and> h' = h @ [ob]"
  by (auto simp: new_def)

lemma prefix_update:
  assumes "prefix h0 h" and "length h0 \<le> a"
  shows "prefix h0 (h[a := ob])"
proof -
  obtain ext where "h = h0 @ ext" using assms(1) by (auto simp: prefix_def)
  then show ?thesis using assms(2) by (simp add: list_update_append)
qed

lemma prefix_new_list: "new_list h r = (r', h') \<Longrightarrow> prefix h h'"
  by (auto simp: new_list_def new_def split: sum.splits)

lemma prefix_slice_from_1: "slice_from_1 h v = (r, h') \<Longrightarrow> prefix h h'"
  by (auto simp: slice_from_1_def new_def split: val.splits if_splits obj.splits)

lemma prefix_list_append:
  assumes "list_append h (Ref a) x = (r, h')" and "prefix h0 h" and "length h0 \<le> a"
  shows "prefix h0 h'"
  using assms by (auto simp: list_append_def prefix_update split: if_splits obj.splits)

lemma prefix_for_loop:
  assumes "\<And>x h r h'. prefix h0 h \<Longrightarrow> body x h = (r, h') \<Longrightarrow> prefix h0 h'"
    and "prefix h0 h" and "for_loop body xs h = (r, h')"
  shows "prefix h0 h'"
  using assms(2,3)
proof (induction xs arbitrary: h)
  case Nil
  then show ?case by simp
next
  case (Cons x xs)
  obtain r1 h1 where b: "body x h = (r1, h1)" by (cases "body x h")
  have p: "prefix h0 h1" using assms(1) [OF Cons.prems(1) b] .
  show ?case
  proof (cases r1)
    case (Inl e)
    then show ?thesis using Cons.prems(2) b p by simp
  next
    case (Inr u)
    then show ?thesis using Cons.prems(2) b Cons.IH [OF p] by simp
  qed
qed

lemma prefix_comprehension_store:
  assumes "\<And>x h r h'. f x h = (r, h') \<Longrightarrow> prefix h h'"
    and "comprehension_store f xs h = (r, h')"
  shows "prefix h h'"
  using assms(2)
proof (induction xs arbitrary: h r h')
  case Nil
  then show ?case by simp
next
  case (Cons x xs)
  obtain r1 h1 where b: "f x h = (r1, h1)" by (cases "f x h")
  have p: "prefix h h1" using assms(1) [OF b] .
  show ?case
  proof (cases r1)
    case (Inl e)
    then show ?thesis using Cons.prems b p by simp
  next
    case (Inr y)
    obtain r2 h2 where c: "comprehension_store f xs h1 = (r2, h2)"
      by (cases "comprehension_store f xs h1")
    have "prefix h1 h2" using Cons.IH [OF c] .
    moreover have "h' = h2" using Cons.prems b c Inr by (auto split: sum.splits)
    ultimately show ?thesis using p by (auto intro: prefix_order.trans)
  qed
qed

lemma prefix_get_row_titles_store: "get_row_titles_store h self = (r, h') \<Longrightarrow> prefix h h'"
  by (auto simp: get_row_titles_store_def split: sum.splits if_splits dest: prefix_new_list)

lemma prefix_get_col_titles_store: "get_col_titles_store h self = (r, h') \<Longrightarrow> prefix h h'"
  by (auto simp: get_col_titles_store_def split: sum.splits if_splits dest: prefix_new_list)

text \<open>The bodies of the loops that append to a list created in the call.\<close>

lemma prefix_body_slice:
  assumes "(case slice_from_1 h x of
              (Inl e, h') \<Rightarrow> (Inl e, h')
            | (Inr s, h') \<Rightarrow> list_append h' (Ref a) s) = (r, h'')"
    and "prefix h0 h" and "length h0 \<le> a"
  shows "prefix h0 h''"
proof -
  obtain r1 h1 where s: "slice_from_1 h x = (r1, h1)" by (cases "slice_from_1 h x")
  have p: "prefix h0 h1" using prefix_slice_from_1 [OF s] assms(2) by (auto intro: prefix_order.trans)
  show ?thesis
  proof (cases r1)
    case (Inl e)
    then show ?thesis using assms(1) s p by simp
  next
    case (Inr v)
    then show ?thesis using assms(1) s prefix_list_append [OF _ p assms(3)] by simp
  qed
qed

lemma prefix_loop_slice:
  assumes "for_loop (\<lambda>row h. case slice_from_1 h row of
                              (Inl e, h') \<Rightarrow> (Inl e, h')
                            | (Inr s, h') \<Rightarrow> list_append h' (Ref a) s) xs h = (r, h')"
    and "prefix h0 h" and "length h0 \<le> a"
  shows "prefix h0 h'"
  by (rule prefix_for_loop [OF _ assms(2) assms(1)]) (erule prefix_body_slice; simp add: assms(3))

lemma prefix_loop_slice_skip:
  assumes "for_loop (\<lambda>(i, row) h. if i = 0 then (Inr (), h)
                   else (case slice_from_1 h row of
                              (Inl e, h') \<Rightarrow> (Inl e, h')
                            | (Inr s, h') \<Rightarrow> list_append h' (Ref a) s)) xs h = (r, h')"
    and "prefix h0 h" and "length h0 \<le> a"
  shows "prefix h0 h'"
  apply (rule prefix_for_loop [OF _ assms(2) assms(1)])
  apply (auto split: if_splits)
  apply (erule prefix_body_slice; simp add: assms(3))
  done

lemma prefix_loop_alias_skip:
  assumes "for_loop (\<lambda>(i, row) h. if i = 0 then (Inr (), h)
                   else list_append h (Ref a) row) xs h = (r, h')"
    and "prefix h0 h" and "length h0 \<le> a"
  shows "prefix h0 h'"
  apply (rule prefix_for_loop [OF _ assms(2) assms(1)])
  apply (auto split: if_splits)
  apply (erule prefix_list_append; simp add: assms(3))
  done

lemma prefix_get_data_per_row_without_titles_store:
  assumes "get_data_per_row_without_titles_store h self = (r, h')"
  shows "prefix h h'"
proof -
  have p1: "prefix h (h @ [ListObj []])" by simp
  show ?thesis
    using assms p1
    unfolding get_data_per_row_without_titles_store_def new_def Let_def prod.case
    by (auto split: sum.splits if_splits prod.splits
        dest: prefix_loop_slice [OF _ p1] prefix_loop_slice_skip [OF _ p1]
          prefix_loop_alias_skip [OF _ p1])
qed

lemma prefix_get_data_per_col_without_titles_store:
  assumes "get_data_per_col_without_titles_store h self = (r, h')"
  shows "prefix h h'"
proof -
  have p1: "prefix h (h @ [ListObj []])" by simp
  show ?thesis
    using assms p1
    unfolding get_data_per_col_without_titles_store_def new_def Let_def prod.case
    by (auto split: sum.splits if_splits prod.splits
        dest: prefix_loop_slice [OF _ p1] prefix_loop_slice_skip [OF _ p1]
          prefix_loop_alias_skip [OF _ p1])
qed

lemma prefix_float_of_cell: "float_of_cell val h = (r, h') \<Longrightarrow> prefix h h'"
  by (auto simp: float_of_cell_def new_def split: val.splits sum.splits)

lemma prefix_floats_of_nested_list:
  assumes "floats_of_nested_list nested_list h = (r, h')"
  shows "prefix h h'"
proof (cases "items h nested_list")
  case (Inl e)
  then show ?thesis using assms by (simp add: floats_of_nested_list_def)
next
  case (Inr vals)
  obtain r1 h1 where c: "comprehension_store float_of_cell vals h = (r1, h1)"
    by (cases "comprehension_store float_of_cell vals h")
  have "prefix h h1" by (rule prefix_comprehension_store [OF prefix_float_of_cell c])
  moreover have "prefix h1 h'"
    using assms Inr c by (auto simp: floats_of_nested_list_def dest: prefix_new_list)
  ultimately show ?thesis by (rule prefix_order.trans)
qed

lemma prefix_parse_data_store:
  assumes "parse_data_store h cells = (r, h')"
  shows "prefix h h'"
proof (cases "items h cells")
  case (Inl e)
  then show ?thesis using assms by (simp add: parse_data_store_def)
next
  case (Inr nested_lists)
  obtain r1 h1 where c: "comprehension_store floats_of_nested_list nested_lists h = (r1, h1)"
    by (cases "comprehension_store floats_of_nested_list nested_lists h")
  have "prefix h h1" by (rule prefix_comprehension_store [OF prefix_floats_of_nested_list c])
  moreover have "prefix h1 h'"
    using assms Inr c by (auto simp: parse_data_store_def dest: prefix_new_list)
  ultimately show ?thesis by (rule prefix_order.trans)
qed

lemma prefix_to_df_store:
  assumes "to_df_store h self = (r, h')"
  shows "prefix h h'"
proof -
  obtain r1 h1 where s1: "get_row_titles_store h self = (r1, h1)"
    by (cases "get_row_titles_store h self")
  obtain r2 h2 where s2: "get_col_titles_store h1 self = (r2, h2)"
    by (cases "get_col_titles_store h1 self")
  obtain r3 h3 where s3: "get_data_per_row_without_titles_store h2 self = (r3, h3)"
    by (cases "get_data_per_row_without_titles_store h2 self")
  obtain r4 h4 where s4: "parse_data_store h3 (projr r3) = (r4, h4)"
    by (cases "parse_data_store h3 (projr r3)")
  note p = prefix_get_row_titles_store [OF s1] prefix_get_col_titles_store [OF s2]
    prefix_get_data_per_row_without_titles_store [OF s3] prefix_parse_data_store [OF s4]
  have "h' = h1 \<or> h' = h2 \<or> h' = h3 \<or> h' = h4"
    using assms s1 s2 s3 s4
    by (auto simp: to_df_store_def split: sum.splits)
  then show ?thesis
    using p by (auto intro: prefix_order.trans)
qed

lemma returned_iff:
  "returned p = (r, h') \<longleftrightarrow>
     (\<exists>r0. p = (r0, h') \<and> r = (case r0 of Inl e \<Rightarrow> Inl e | Inr v \<Rightarrow> Inr (Val v)))"
  by (cases p) (auto simp: returned_def split: sum.splits)

lemma prefix_call: "call h self op = (r, h') \<Longrightarrow> prefix h h'"
  by (cases op)
    (auto simp: returned_iff dest: prefix_get_row_titles_store prefix_get_col_titles_store
      prefix_get_data_per_row_without_titles_store prefix_get_data_per_col_without_titles_store
      prefix_parse_data_store prefix_to_df_store)

lemma prefix_calls: "calls h self ops = (rs, h') \<Longrightarrow> prefix h h'"
proof (induction ops arbitrary: h rs h')
  case Nil
  then show ?case by simp
next
  case (Cons op ops)
  obtain r h1 where c: "call h self op = (r, h1)" by (cases "call h self op")
  obtain rs' h2 where d: "calls h1 self ops = (rs', h2)" by (cases "calls h1 self ops")
  have "h' = h2" using Cons.prems c d by simp
  then show ?case using prefix_call [OF c] Cons.IH [OF d] by (auto intro: prefix_order.trans)
qed

lemma prefix_take: "prefix h h' \<longleftrightarrow> take (length h) h' = h"
  by (metis append_eq_conv_conj prefix_def)

subsection \<open>Reading values off the store\<close>

lemma those_map_iff:
  "those (map f xs) = Some ys \<longleftrightarrow> list_all2 (\<lambda>x y. f x = Some y) xs ys"
proof (induction xs arbitrary: ys)
  case Nil
  then show ?case by auto
next
  case (Cons x xs)
  show ?case
  proof (cases "f x")
    case None
    then show ?thesis by (auto simp: list_all2_Cons1)
  next
    case (Some y)
    then show ?thesis
      using Cons.IH by (cases "those (map f xs)") (auto simp: list_all2_Cons1)
  qed
qed

lemma list_all2_str_of: "list_all2 (\<lambda>x y. str_of x = Some y) xs r \<longleftrightarrow> xs = map Str r"
proof (induction xs arbitrary: r)
  case Nil
  then show ?case by auto
next
  case (Cons x xs)
  then show ?case
    by (cases r) (auto simp: str_of_def split: val.splits)
qed

lemma list_at_iff:
  "list_at h v = Some xs \<longleftrightarrow> (\<exists>a. v = Ref a \<and> a < length h \<and> h ! a = ListObj xs)"
  by (auto simp: list_at_def split: val.splits obj.splits)

lemma float_at_iff:
  "float_at h v = Some x \<longleftrightarrow> (\<exists>a. v = Ref a \<and> a < length h \<and> h ! a = FloatObj x)"
  by (auto simp: float_at_def split: val.splits obj.splits)

lemma strs_of_iff:
  "strs_of h v = Some r \<longleftrightarrow> (\<exists>a. v = Ref a \<and> a < length h \<and> h ! a = ListObj (map Str r))"
  by (auto simp: strs_of_def those_map_iff list_all2_str_of list_at_def
      split: option.splits val.splits obj.splits if_splits)

lemma str_lists_of_iff:
  "str_lists_of h v = Some rs \<longleftrightarrow>
     (\<exists>vs. list_at h v = Some vs \<and> list_all2 (\<lambda>v r. strs_of h v = Some r) vs rs)"
  by (auto simp: str_lists_of_def those_map_iff split: option.splits)

lemma floats_of_iff:
  "floats_of h v = Some fs \<longleftrightarrow>
     (\<exists>vs. list_at h v = Some vs \<and> list_all2 (\<lambda>v x. float_at h v = Some x) vs fs)"
  by (auto simp: floats_of_def those_map_iff split: option.splits)

lemma float_lists_of_iff:
  "float_lists_of h v = Some fss \<longleftrightarrow>
     (\<exists>vs. list_at h v = Some vs \<and> list_all2 (\<lambda>v fs. floats_of h v = Some fs) vs fss)"
  by (auto simp: float_lists_of_def those_map_iff split: option.splits)

lemma attributes_of_iff:
  "attributes_of h self = Inr attrs \<longleftrightarrow>
     (\<exists>a. self = Ref a \<and> a < length h \<and> h ! a = InstanceObj attrs)"
  by (auto simp: attributes_of_def split: val.splits obj.splits)

text \<open>What was read from a store is read from every store that extends it.\<close>

lemma prefix_nth: "prefix h h' \<Longrightarrow> a < length h \<Longrightarrow> h' ! a = h ! a"
  by (auto simp: prefix_def nth_append)

lemma prefix_length: "prefix h h' \<Longrightarrow> a < length h \<Longrightarrow> a < length h'"
  by (auto simp: prefix_def)

lemma list_at_mono: "prefix h h' \<Longrightarrow> list_at h v = Some xs \<Longrightarrow> list_at h' v = Some xs"
  by (auto simp: list_at_iff prefix_nth prefix_length)

lemma float_at_mono: "prefix h h' \<Longrightarrow> float_at h v = Some x \<Longrightarrow> float_at h' v = Some x"
  by (auto simp: float_at_iff prefix_nth prefix_length)

lemma strs_of_mono: "prefix h h' \<Longrightarrow> strs_of h v = Some r \<Longrightarrow> strs_of h' v = Some r"
  by (auto simp: strs_of_iff prefix_nth prefix_length)

lemma str_lists_of_mono:
  assumes "prefix h h'" and "str_lists_of h v = Some rs"
  shows "str_lists_of h' v = Some rs"
proof -
  obtain vs where vs: "list_at h v = Some vs" "list_all2 (\<lambda>v r. strs_of h v = Some r) vs rs"
    using assms(2) by (auto simp: str_lists_of_iff)
  have "list_all2 (\<lambda>v r. strs_of h' v = Some r) vs rs"
    using vs(2) by (rule list_all2_mono) (rule strs_of_mono [OF assms(1)])
  then show ?thesis
    using list_at_mono [OF assms(1) vs(1)] by (auto simp: str_lists_of_iff)
qed

lemma floats_of_mono:
  assumes "prefix h h'" and "floats_of h v = Some fs"
  shows "floats_of h' v = Some fs"
proof -
  obtain vs where vs: "list_at h v = Some vs" "list_all2 (\<lambda>v x. float_at h v = Some x) vs fs"
    using assms(2) by (auto simp: floats_of_iff)
  have "list_all2 (\<lambda>v x. float_at h' v = Some x) vs fs"
    using vs(2) by (rule list_all2_mono) (rule float_at_mono [OF assms(1)])
  then show ?thesis
    using list_at_mono [OF assms(1) vs(1)] by (auto simp: floats_of_iff)
qed

lemma float_lists_of_mono:
  assumes "prefix h h'" and "float_lists_of h v = Some fss"
  shows "float_lists_of h' v = Some fss"
proof -
  obtain vs where vs: "list_at h v = Some vs"
    "list_all2 (\<lambda>v fs. floats_of h v = Some fs) vs fss"
    using assms(2) by (auto simp: float_lists_of_iff)
  have "list_all2 (\<lambda>v fs. floats_of h' v = Some fs) vs fss"
    using vs(2) by (rule list_all2_mono) (rule floats_of_mono [OF assms(1)])
  then show ?thesis
    using list_at_mono [OF assms(1) vs(1)] by (auto simp: float_lists_of_iff)
qed

lemma titles_of_mono:
  "prefix h h' \<Longrightarrow> titles_of h v = Some t \<Longrightarrow> titles_of h' v = Some t"
  by (cases v) (auto simp: titles_of_def dest: strs_of_mono)

lemma attributes_of_mono:
  "prefix h h' \<Longrightarrow> attributes_of h self = Inr attrs \<Longrightarrow> attributes_of h' self = Inr attrs"
  by (auto simp: attributes_of_iff prefix_nth prefix_length)

lemma view_iff:
  "view h self = Some c \<longleftrightarrow>
     (\<exists>attrs. attributes_of h self = Inr attrs
        \<and> str_lists_of h (self_rows attrs) = Some (rows c)
        \<and> str_lists_of h (self_cols attrs) = Some (cols c)
        \<and> self_sep attrs = sep c \<and> self_length_of_rows attrs = length_of_rows c
        \<and> self_length_of_cols attrs = length_of_cols c
        \<and> self_row_titles attrs = row_titles c \<and> self_col_titles attrs = col_titles c)"
  by (cases c) (auto simp: view_def split: sum.splits option.splits)

lemma view_mono:
  assumes "prefix h h'" and "view h self = Some c"
  shows "view h' self = Some c"
proof -
  obtain attrs where a: "attributes_of h self = Inr attrs"
    "str_lists_of h (self_rows attrs) = Some (rows c)"
    "str_lists_of h (self_cols attrs) = Some (cols c)"
    "self_sep attrs = sep c" "self_length_of_rows attrs = length_of_rows c"
    "self_length_of_cols attrs = length_of_cols c"
    "self_row_titles attrs = row_titles c" "self_col_titles attrs = col_titles c"
    using assms(2) unfolding view_iff by blast
  show ?thesis
    unfolding view_iff
    using attributes_of_mono [OF assms(1) a(1)] str_lists_of_mono [OF assms(1) a(2)]
      str_lists_of_mono [OF assms(1) a(3)] a(4-8)
    by blast
qed

lemma dataframe_of_mono:
  assumes "prefix h h'" and "dataframe_of h r = Some df"
  shows "dataframe_of h' r = Some df"
proof -
  obtain d i c fss idx cls where v: "r = DataFrame d i c"
    "float_lists_of h d = Some fss" "titles_of h i = Some idx" "titles_of h c = Some cls"
    "df = \<lparr>data = fss, index = idx, columns = cls\<rparr>"
    using assms(2)
    by (auto simp: dataframe_of_def split: result.splits option.splits)
  show ?thesis
    using v(1,5) float_lists_of_mono [OF assms(1) v(2)] titles_of_mono [OF assms(1) v(3)]
      titles_of_mono [OF assms(1) v(4)]
    by (simp add: dataframe_of_def)
qed

subsection \<open>The titles in the store\<close>

lemma items_list_at: "list_at h v = Some vs \<Longrightarrow> items h v = Inr vs"
  by (auto simp: list_at_iff items_def)

lemma items_strs_of: "strs_of h v = Some r \<Longrightarrow> items h v = Inr (map Str r)"
  by (auto simp: strs_of_iff items_def)

lemma subscript_first:
  "strs_of h v = Some r \<Longrightarrow> subscript h v 0 = map_sum id Str (getitem r 0)"
  by (auto simp: subscript_def items_strs_of getitem_def)

lemma truthy_strs_of: "strs_of h v = Some r \<Longrightarrow> truthy h v = (r \<noteq> [])"
  by (auto simp: strs_of_iff truthy_def)

lemma comprehension_rel:
  "list_all2 (\<lambda>x y. f x = map_sum id Str (g y)) xs ys \<Longrightarrow>
     comprehension f xs = map_sum id (map Str) (comprehension g ys)"
proof (induction rule: list_all2_induct)
  case Nil
  then show ?case by simp
next
  case (Cons x xs y ys)
  then show ?case
    by (cases "g y"; cases "comprehension g ys") auto
qed

lemma first_cells_rel:
  assumes "list_all2 (\<lambda>v r. strs_of h v = Some r) vs rs"
  shows "comprehension (\<lambda>row. subscript h row 0) vs =
           map_sum id (map Str) (comprehension (\<lambda>row. getitem row 0) rs)"
  by (rule comprehension_rel) (rule list_all2_mono [OF assms], simp add: subscript_first)

lemma list_all2_tl: "list_all2 P xs ys \<Longrightarrow> list_all2 P (tl xs) (tl ys)"
  by (cases xs; cases ys) auto

lemma list_all2_filter:
  assumes "list_all2 P xs ys" and "\<And>x y. P x y \<Longrightarrow> p x = q y"
  shows "list_all2 P (filter p xs) (filter q ys)"
  using assms(1)
proof (induction rule: list_all2_induct)
  case Nil
  then show ?case by simp
next
  case (Cons x xs y ys)
  then show ?case using assms(2) [OF Cons.hyps(1)] by simp
qed

lemma new_list_strs:
  "new_list h (map_sum id (map Str) res) =
     (case res of
        Inl e \<Rightarrow> (Inl e, h)
      | Inr ts \<Rightarrow> (Inr (Ref (length h)), h @ [ListObj (map Str ts)]))"
  by (cases res) (simp_all add: new_list_def new_def)

lemma strs_of_new: "strs_of (h @ [ListObj (map Str ts)]) (Ref (length h)) = Some ts"
  by (simp add: strs_of_iff)

lemma get_row_titles_store_refines:
  assumes "view h self = Some c"
  shows "case get_row_titles c of
           Inl e \<Rightarrow> get_row_titles_store h self = (Inl e, h)
         | Inr t \<Rightarrow> (\<exists>v h'. get_row_titles_store h self = (Inr v, h') \<and> titles_of h' v = Some t)"
proof -
  obtain attrs where a: "attributes_of h self = Inr attrs"
    "str_lists_of h (self_rows attrs) = Some (rows c)"
    "self_row_titles attrs = row_titles c" "self_col_titles attrs = col_titles c"
    using assms unfolding view_iff by blast
  obtain vs where vs: "list_at h (self_rows attrs) = Some vs"
    "list_all2 (\<lambda>v r. strs_of h v = Some r) vs (rows c)"
    using a(2) by (auto simp: str_lists_of_iff)
  note it = items_list_at [OF vs(1)]
  show ?thesis
  proof (cases "row_titles c")
    case False
    then show ?thesis
      using a by (simp add: get_row_titles_def get_row_titles_store_def titles_of_def)
  next
    case rt: True
    show ?thesis
    proof (cases "col_titles c")
      case True
      have "comprehension (\<lambda>(i, row). subscript h row 0)
              (filter (\<lambda>(i, row). i \<noteq> 0) (enumerate vs)) =
            map_sum id (map Str)
              (comprehension (\<lambda>(i, row). getitem row 0)
                 (filter (\<lambda>(i, row). i \<noteq> 0) (enumerate (rows c))))"
        unfolding comprehension_enumerate_skip_first
        by (rule first_cells_rel) (rule list_all2_tl [OF vs(2)])
      then show ?thesis
        using a rt True it
        by (auto simp: get_row_titles_def get_row_titles_store_def new_list_strs titles_of_def
            strs_of_new split: sum.splits)
    next
      case False
      then show ?thesis
        using a rt it first_cells_rel [OF vs(2)]
        by (auto simp: get_row_titles_def get_row_titles_store_def new_list_strs titles_of_def
            strs_of_new split: sum.splits)
    qed
  qed
qed

lemma get_col_titles_store_refines:
  assumes "view h self = Some c"
  shows "case get_col_titles c of
           Inl e \<Rightarrow> get_col_titles_store h self = (Inl e, h)
         | Inr t \<Rightarrow> (\<exists>v h'. get_col_titles_store h self = (Inr v, h') \<and> titles_of h' v = Some t)"
proof -
  obtain attrs where a: "attributes_of h self = Inr attrs"
    "str_lists_of h (self_cols attrs) = Some (cols c)"
    "self_row_titles attrs = row_titles c" "self_col_titles attrs = col_titles c"
    using assms unfolding view_iff by blast
  obtain vs where vs: "list_at h (self_cols attrs) = Some vs"
    "list_all2 (\<lambda>v r. strs_of h v = Some r) vs (cols c)"
    using a(2) by (auto simp: str_lists_of_iff)
  note it = items_list_at [OF vs(1)]
  show ?thesis
  proof (cases "col_titles c")
    case False
    then show ?thesis
      using a by (simp add: get_col_titles_def get_col_titles_store_def titles_of_def)
  next
    case ct: True
    show ?thesis
    proof (cases "row_titles c")
      case True
      have "comprehension (\<lambda>(i, col). subscript h col 0)
              (filter (\<lambda>(i, col). i \<noteq> 0) (enumerate vs)) =
            map_sum id (map Str)
              (comprehension (\<lambda>(i, col). getitem col 0)
                 (filter (\<lambda>(i, col). i \<noteq> 0) (enumerate (cols c))))"
        unfolding comprehension_enumerate_skip_first
        by (rule first_cells_rel) (rule list_all2_tl [OF vs(2)])
      then show ?thesis
        using a ct True it
        by (auto simp: get_col_titles_def get_col_titles_store_def new_list_strs titles_of_def
            strs_of_new split: sum.splits)
    next
      case False
      have "list_all2 (\<lambda>v r. strs_of h v = Some r) (filter (truthy h) vs)
              (filter (\<lambda>col. col \<noteq> []) (cols c))"
        by (rule list_all2_filter [OF vs(2)]) (simp add: truthy_strs_of)
      then show ?thesis
        using a ct False it first_cells_rel
        by (auto simp: get_col_titles_def get_col_titles_store_def new_list_strs titles_of_def
            strs_of_new split: sum.splits)
    qed
  qed
qed

subsection \<open>The data rows and columns in the store\<close>

lemma for_loop_skip:
  "for_loop (\<lambda>(i, x) h. if i = 0 then (Inr (), h) else body x h) ps h =
     for_loop body (map snd (filter (\<lambda>(i, x). i \<noteq> 0) ps)) h"
  by (induction ps arbitrary: h) (auto split: prod.splits sum.splits)

lemma for_loop_enumerate_skip_first:
  "for_loop (\<lambda>(i, x) h. if i = 0 then (Inr (), h) else body x h) (enumerate xs) h =
     for_loop body (tl xs) h"
  by (simp only: for_loop_skip enumerate_skip_first)

text \<open>
  A list of str read at \<open>v\<close> is still read there after the store has grown and the list at
  another address \<open>a\<close> has changed.
\<close>

lemma strs_of_stable:
  assumes "strs_of h v = Some r \<and> v \<noteq> Ref a"
  shows "strs_of ((h @ ext)[a := ob]) v = Some r \<and> v \<noteq> Ref a"
proof -
  obtain b where b: "v = Ref b" "b < length h" "h ! b = ListObj (map Str r)" "b \<noteq> a"
    using assms by (auto simp: strs_of_iff)
  then show ?thesis by (simp add: strs_of_iff nth_append)
qed

lemma loop_slice:
  assumes "list_all2 (\<lambda>v r. strs_of h v = Some r \<and> v \<noteq> Ref a) vs rs"
    and "a < length h" and "h ! a = ListObj acc"
    and "list_all2 (\<lambda>v r. strs_of h v = Some r \<and> v \<noteq> Ref a) acc dn"
  shows "\<exists>h' acc'.
           for_loop (\<lambda>row h. case slice_from_1 h row of
                                (Inl e, h') \<Rightarrow> (Inl e, h')
                              | (Inr s, h') \<Rightarrow> list_append h' (Ref a) s) vs h = (Inr (), h')
           \<and> a < length h' \<and> h' ! a = ListObj acc'
           \<and> list_all2 (\<lambda>v r. strs_of h' v = Some r \<and> v \<noteq> Ref a) acc' (dn @ map (drop 1) rs)"
  using assms
proof (induction vs arbitrary: rs h acc dn)
  case Nil
  then show ?case by simp
next
  case (Cons v vs rs0)
  obtain r rs where rs0: "rs0 = r # rs"
    and hd_rel: "strs_of h v = Some r \<and> v \<noteq> Ref a"
    and tl_rel: "list_all2 (\<lambda>v r. strs_of h v = Some r \<and> v \<noteq> Ref a) vs rs"
    using Cons.prems(1) by (auto simp: list_all2_Cons1)
  have alen: "a < length h" and aacc: "h ! a = ListObj acc"
    and accdn: "list_all2 (\<lambda>v r. strs_of h v = Some r \<and> v \<noteq> Ref a) acc dn"
    using Cons.prems by simp_all
  have sv: "strs_of h v = Some r" and ne: "v \<noteq> Ref a" using hd_rel by simp_all
  obtain b where b: "v = Ref b" "b < length h" "h ! b = ListObj (map Str r)"
    using sv by (auto simp: strs_of_iff)
  define X where "X = ListObj (map Str (drop 1 r))"
  define h2 where "h2 = (h @ [X])[a := ListObj (acc @ [Ref (length h)])]"
  have sl: "slice_from_1 h v = (Inr (Ref (length h)), h @ [X])"
    using b by (simp add: slice_from_1_def new_def X_def drop_map)
  have ap: "list_append (h @ [X]) (Ref a) (Ref (length h)) = (Inr (), h2)"
    using alen aacc by (simp add: list_append_def nth_append h2_def)
  have a2: "a < length h2" using alen by (simp add: h2_def)
  have at2: "h2 ! a = ListObj (acc @ [Ref (length h)])"
    using alen by (simp add: h2_def)
  have new: "strs_of h2 (Ref (length h)) = Some (drop 1 r) \<and> Ref (length h) \<noteq> Ref a"
    using alen by (simp add: strs_of_iff h2_def X_def)
  have old: "list_all2 (\<lambda>v r. strs_of h2 v = Some r \<and> v \<noteq> Ref a) acc dn"
    using accdn unfolding h2_def
    by (rule list_all2_mono) (rule strs_of_stable)
  have acc2: "list_all2 (\<lambda>v r. strs_of h2 v = Some r \<and> v \<noteq> Ref a)
                (acc @ [Ref (length h)]) (dn @ [drop 1 r])"
    using old new by (simp add: list_all2_appendI)
  have rest: "list_all2 (\<lambda>v r. strs_of h2 v = Some r \<and> v \<noteq> Ref a) vs rs"
    using tl_rel unfolding h2_def
    by (rule list_all2_mono) (rule strs_of_stable)
  obtain h' acc' where f:
    "for_loop (\<lambda>row h. case slice_from_1 h row of
                                (Inl e, h') \<Rightarrow> (Inl e, h')
                              | (Inr s, h') \<Rightarrow> list_append h' (Ref a) s) vs h2 = (Inr (), h')"
    "a < length h'" "h' ! a = ListObj acc'"
    "list_all2 (\<lambda>v r. strs_of h' v = Some r \<and> v \<noteq> Ref a) acc'
       ((dn @ [drop 1 r]) @ map (drop 1) rs)"
    using Cons.IH [OF rest a2 at2 acc2] by blast
  show ?case
    using f sl ap by (auto simp: rs0)
qed

lemma loop_alias:
  assumes "list_all2 (\<lambda>v r. strs_of h v = Some r \<and> v \<noteq> Ref a) vs rs"
    and "a < length h" and "h ! a = ListObj acc"
    and "list_all2 (\<lambda>v r. strs_of h v = Some r \<and> v \<noteq> Ref a) acc dn"
  shows "\<exists>h' acc'.
           for_loop (\<lambda>row h. list_append h (Ref a) row) vs h = (Inr (), h')
           \<and> a < length h' \<and> h' ! a = ListObj acc'
           \<and> list_all2 (\<lambda>v r. strs_of h' v = Some r \<and> v \<noteq> Ref a) acc' (dn @ rs)"
  using assms
proof (induction vs arbitrary: rs h acc dn)
  case Nil
  then show ?case by simp
next
  case (Cons v vs rs0)
  obtain r rs where rs0: "rs0 = r # rs"
    and hd_rel: "strs_of h v = Some r \<and> v \<noteq> Ref a"
    and tl_rel: "list_all2 (\<lambda>v r. strs_of h v = Some r \<and> v \<noteq> Ref a) vs rs"
    using Cons.prems(1) by (auto simp: list_all2_Cons1)
  have alen: "a < length h" and aacc: "h ! a = ListObj acc"
    and accdn: "list_all2 (\<lambda>v r. strs_of h v = Some r \<and> v \<noteq> Ref a) acc dn"
    using Cons.prems by simp_all
  define h2 where "h2 = (h @ [])[a := ListObj (acc @ [v])]"
  have ap: "list_append h (Ref a) v = (Inr (), h2)"
    using alen aacc by (simp add: list_append_def h2_def)
  have a2: "a < length h2" using alen by (simp add: h2_def)
  have at2: "h2 ! a = ListObj (acc @ [v])"
    using alen by (simp add: h2_def)
  have new: "strs_of h2 v = Some r \<and> v \<noteq> Ref a"
    unfolding h2_def by (rule strs_of_stable) (rule hd_rel)
  have old: "list_all2 (\<lambda>v r. strs_of h2 v = Some r \<and> v \<noteq> Ref a) acc dn"
    using accdn unfolding h2_def
    by (rule list_all2_mono) (rule strs_of_stable)
  have acc2: "list_all2 (\<lambda>v r. strs_of h2 v = Some r \<and> v \<noteq> Ref a) (acc @ [v]) (dn @ [r])"
    using old new by (simp add: list_all2_appendI)
  have rest: "list_all2 (\<lambda>v r. strs_of h2 v = Some r \<and> v \<noteq> Ref a) vs rs"
    using tl_rel unfolding h2_def
    by (rule list_all2_mono) (rule strs_of_stable)
  obtain h' acc' where f:
    "for_loop (\<lambda>row h. list_append h (Ref a) row) vs h2 = (Inr (), h')"
    "a < length h'" "h' ! a = ListObj acc'"
    "list_all2 (\<lambda>v r. strs_of h' v = Some r \<and> v \<noteq> Ref a) acc' ((dn @ [r]) @ rs)"
    using Cons.IH [OF rest a2 at2 acc2] by blast
  show ?case
    using f ap by (auto simp: rs0)
qed

text \<open>The rows or columns an attribute refers to, in the store after \<open>relevant = []\<close>.\<close>

lemma grid_after_new_list:
  assumes "str_lists_of h g = Some rs"
  shows "\<exists>vs. items (h @ [ListObj []]) g = Inr vs
           \<and> list_all2 (\<lambda>v r. strs_of (h @ [ListObj []]) v = Some r \<and> v \<noteq> Ref (length h)) vs rs"
proof -
  obtain vs where vs: "list_at h g = Some vs" "list_all2 (\<lambda>v r. strs_of h v = Some r) vs rs"
    using assms by (auto simp: str_lists_of_iff)
  have p: "prefix h (h @ [ListObj []])" by simp
  have "list_all2 (\<lambda>v r. strs_of (h @ [ListObj []]) v = Some r \<and> v \<noteq> Ref (length h)) vs rs"
    using vs(2)
  proof (rule list_all2_mono)
    fix v r assume s: "strs_of h v = Some r"
    then have "v \<noteq> Ref (length h)" by (auto simp: strs_of_iff)
    then show "strs_of (h @ [ListObj []]) v = Some r \<and> v \<noteq> Ref (length h)"
      using strs_of_mono [OF p s] by simp
  qed
  then show ?thesis
    using items_list_at [OF list_at_mono [OF p vs(1)]] by blast
qed

lemma str_lists_of_result:
  assumes "a < length h" and "h ! a = ListObj acc"
    and "list_all2 (\<lambda>v r. strs_of h v = Some r \<and> v \<noteq> Ref a) acc rs"
  shows "str_lists_of h (Ref a) = Some rs"
proof -
  have "list_all2 (\<lambda>v r. strs_of h v = Some r) acc rs"
    using assms(3) by (rule list_all2_mono) simp
  then show ?thesis using assms(1,2) by (auto simp: str_lists_of_iff list_at_iff)
qed

lemma get_data_per_row_without_titles_store_refines:
  assumes "view h self = Some c"
  shows "\<exists>v h'. get_data_per_row_without_titles_store h self = (Inr v, h')
           \<and> str_lists_of h' v = Some (get_data_per_row_without_titles c)"
proof -
  define a where "a = length h"
  define h1 where "h1 = h @ [ListObj []]"
  have p: "prefix h h1" by (simp add: h1_def)
  obtain attrs where at: "attributes_of h self = Inr attrs"
    "str_lists_of h (self_rows attrs) = Some (rows c)"
    "self_row_titles attrs = row_titles c" "self_col_titles attrs = col_titles c"
    using assms unfolding view_iff by blast
  note at1 = attributes_of_mono [OF p at(1)]
  obtain vs where vs: "items h1 (self_rows attrs) = Inr vs"
    "list_all2 (\<lambda>v r. strs_of h1 v = Some r \<and> v \<noteq> Ref a) vs (rows c)"
    using grid_after_new_list [OF at(2)] unfolding h1_def a_def by blast
  have a1: "a < length h1" "h1 ! a = ListObj []" by (simp_all add: a_def h1_def)
  have e: "list_all2 (\<lambda>v r. strs_of h1 v = Some r \<and> v \<noteq> Ref a) [] []" by simp
  have tl_vs: "list_all2 (\<lambda>v r. strs_of h1 v = Some r \<and> v \<noteq> Ref a) (tl vs) (tl (rows c))"
    by (rule list_all2_tl [OF vs(2)])
  have start: "new h (ListObj []) = (a, h1)" by (simp add: new_def a_def h1_def)
  consider (both) "row_titles c" "col_titles c" | (cols) "\<not> row_titles c" "col_titles c"
    | (rows) "row_titles c" "\<not> col_titles c" | (none) "\<not> row_titles c" "\<not> col_titles c"
    by blast
  then show ?thesis
  proof cases
    case both
    obtain h' acc' where l:
      "for_loop (\<lambda>row h. case slice_from_1 h row of
                                (Inl e, h') \<Rightarrow> (Inl e, h')
                              | (Inr s, h') \<Rightarrow> list_append h' (Ref a) s) (tl vs) h1 = (Inr (), h')"
      "a < length h'" "h' ! a = ListObj acc'"
      "list_all2 (\<lambda>v r. strs_of h' v = Some r \<and> v \<noteq> Ref a) acc' ([] @ map (drop 1) (tl (rows c)))"
      using loop_slice [OF tl_vs a1 e] by blast
    have "str_lists_of h' (Ref a) = Some (map tl (tl (rows c)))"
      using str_lists_of_result [OF l(2,3)] l(4) by (simp add: drop_Suc)
    then show ?thesis
      using both at at1 vs(1) l(1) start
      unfolding get_data_per_row_without_titles_store_def for_loop_enumerate_skip_first
      by (simp add: get_data_per_row_eq)
  next
    case cols
    obtain h' acc' where l:
      "for_loop (\<lambda>row h. list_append h (Ref a) row) (tl vs) h1 = (Inr (), h')"
      "a < length h'" "h' ! a = ListObj acc'"
      "list_all2 (\<lambda>v r. strs_of h' v = Some r \<and> v \<noteq> Ref a) acc' ([] @ tl (rows c))"
      using loop_alias [OF tl_vs a1 e] by blast
    have "str_lists_of h' (Ref a) = Some (tl (rows c))"
      using str_lists_of_result [OF l(2,3)] l(4) by simp
    then show ?thesis
      using cols at at1 vs(1) l(1) start
      unfolding get_data_per_row_without_titles_store_def for_loop_enumerate_skip_first
      by (simp add: get_data_per_row_eq)
  next
    case rows
    obtain h' acc' where l:
      "for_loop (\<lambda>row h. case slice_from_1 h row of
                                (Inl e, h') \<Rightarrow> (Inl e, h')
                              | (Inr s, h') \<Rightarrow> list_append h' (Ref a) s) vs h1 = (Inr (), h')"
      "a < length h'" "h' ! a = ListObj acc'"
      "list_all2 (\<lambda>v r. strs_of h' v = Some r \<and> v \<noteq> Ref a) acc' ([] @ map (drop 1) (rows c))"
      using loop_slice [OF vs(2) a1 e] by blast
    have "str_lists_of h' (Ref a) = Some (map tl (rows c))"
      using str_lists_of_result [OF l(2,3)] l(4) by (simp add: drop_Suc)
    then show ?thesis
      using rows at at1 vs(1) l(1) start
      unfolding get_data_per_row_without_titles_store_def
      by (simp add: get_data_per_row_eq)
  next
    case none
    then show ?thesis
      using at at1 start str_lists_of_mono [OF p at(2)]
      unfolding get_data_per_row_without_titles_store_def
      by (simp add: get_data_per_row_eq)
  qed
qed

lemma get_data_per_col_without_titles_store_refines:
  assumes "view h self = Some c"
  shows "\<exists>v h'. get_data_per_col_without_titles_store h self = (Inr v, h')
           \<and> str_lists_of h' v = Some (get_data_per_col_without_titles c)"
proof -
  define a where "a = length h"
  define h1 where "h1 = h @ [ListObj []]"
  have p: "prefix h h1" by (simp add: h1_def)
  obtain attrs where at: "attributes_of h self = Inr attrs"
    "str_lists_of h (self_cols attrs) = Some (cols c)"
    "self_row_titles attrs = row_titles c" "self_col_titles attrs = col_titles c"
    using assms unfolding view_iff by blast
  note at1 = attributes_of_mono [OF p at(1)]
  obtain vs where vs: "items h1 (self_cols attrs) = Inr vs"
    "list_all2 (\<lambda>v r. strs_of h1 v = Some r \<and> v \<noteq> Ref a) vs (cols c)"
    using grid_after_new_list [OF at(2)] unfolding h1_def a_def by blast
  have a1: "a < length h1" "h1 ! a = ListObj []" by (simp_all add: a_def h1_def)
  have e: "list_all2 (\<lambda>v r. strs_of h1 v = Some r \<and> v \<noteq> Ref a) [] []" by simp
  have tl_vs: "list_all2 (\<lambda>v r. strs_of h1 v = Some r \<and> v \<noteq> Ref a) (tl vs) (tl (cols c))"
    by (rule list_all2_tl [OF vs(2)])
  have start: "new h (ListObj []) = (a, h1)" by (simp add: new_def a_def h1_def)
  consider (both) "row_titles c" "col_titles c" | (row_only) "row_titles c" "\<not> col_titles c"
    | (col_only) "\<not> row_titles c" "col_titles c" | (none) "\<not> row_titles c" "\<not> col_titles c"
    by blast
  then show ?thesis
  proof cases
    case both
    obtain h' acc' where l:
      "for_loop (\<lambda>col h. case slice_from_1 h col of
                                (Inl e, h') \<Rightarrow> (Inl e, h')
                              | (Inr s, h') \<Rightarrow> list_append h' (Ref a) s) (tl vs) h1 = (Inr (), h')"
      "a < length h'" "h' ! a = ListObj acc'"
      "list_all2 (\<lambda>v r. strs_of h' v = Some r \<and> v \<noteq> Ref a) acc' ([] @ map (drop 1) (tl (cols c)))"
      using loop_slice [OF tl_vs a1 e] by blast
    have "str_lists_of h' (Ref a) = Some (map tl (tl (cols c)))"
      using str_lists_of_result [OF l(2,3)] l(4) by (simp add: drop_Suc)
    then show ?thesis
      using both at at1 vs(1) l(1) start
      unfolding get_data_per_col_without_titles_store_def for_loop_enumerate_skip_first
      by (simp add: get_data_per_col_eq)
  next
    case row_only
    obtain h' acc' where l:
      "for_loop (\<lambda>col h. list_append h (Ref a) col) (tl vs) h1 = (Inr (), h')"
      "a < length h'" "h' ! a = ListObj acc'"
      "list_all2 (\<lambda>v r. strs_of h' v = Some r \<and> v \<noteq> Ref a) acc' ([] @ tl (cols c))"
      using loop_alias [OF tl_vs a1 e] by blast
    have "str_lists_of h' (Ref a) = Some (tl (cols c))"
      using str_lists_of_result [OF l(2,3)] l(4) by simp
    then show ?thesis
      using row_only at at1 vs(1) l(1) start
      unfolding get_data_per_col_without_titles_store_def for_loop_enumerate_skip_first
      by (simp add: get_data_per_col_eq)
  next
    case col_only
    obtain h' acc' where l:
      "for_loop (\<lambda>col h. case slice_from_1 h col of
                                (Inl e, h') \<Rightarrow> (Inl e, h')
                              | (Inr s, h') \<Rightarrow> list_append h' (Ref a) s) vs h1 = (Inr (), h')"
      "a < length h'" "h' ! a = ListObj acc'"
      "list_all2 (\<lambda>v r. strs_of h' v = Some r \<and> v \<noteq> Ref a) acc' ([] @ map (drop 1) (cols c))"
      using loop_slice [OF vs(2) a1 e] by blast
    have "str_lists_of h' (Ref a) = Some (map tl (cols c))"
      using str_lists_of_result [OF l(2,3)] l(4) by (simp add: drop_Suc)
    then show ?thesis
      using col_only at at1 vs(1) l(1) start
      unfolding get_data_per_col_without_titles_store_def
      by (simp add: get_data_per_col_eq)
  next
    case none
    then show ?thesis
      using at at1 start str_lists_of_mono [OF p at(2)]
      unfolding get_data_per_col_without_titles_store_def
      by (simp add: get_data_per_col_eq)
  qed
qed

subsection \<open>The parsed cells in the store\<close>

lemma comprehension_store_rel:
  assumes step: "\<And>x y h. R h x y \<Longrightarrow>
      \<exists>r h'. f x h = (r, h') \<and> prefix h h'
        \<and> (case g y of Inl e \<Rightarrow> r = Inl e | Inr b \<Rightarrow> (\<exists>a. r = Inr a \<and> Q (length h) h' a b))"
    and mono_R: "\<And>x y h h'. prefix h h' \<Longrightarrow> R h x y \<Longrightarrow> R h' x y"
    and mono_Q: "\<And>n n' h h' a b. prefix h h' \<Longrightarrow> n' \<le> n \<Longrightarrow> Q n h a b \<Longrightarrow> Q n' h' a b"
    and rel: "list_all2 (R h) xs ys"
  shows "\<exists>r h'. comprehension_store f xs h = (r, h') \<and> prefix h h'
           \<and> (case comprehension g ys of
                 Inl e \<Rightarrow> r = Inl e
               | Inr bs \<Rightarrow> (\<exists>as. r = Inr as \<and> list_all2 (Q (length h) h') as bs))"
  using rel
proof (induction xs arbitrary: ys h)
  case Nil
  then show ?case by simp
next
  case (Cons x xs ys0)
  obtain y ys where ys0: "ys0 = y # ys" and hd_rel: "R h x y" and tl_rel: "list_all2 (R h) xs ys"
    using Cons.prems by (auto simp: list_all2_Cons1)
  obtain r1 h1 where s1: "f x h = (r1, h1)" "prefix h h1"
    "case g y of Inl e \<Rightarrow> r1 = Inl e | Inr b \<Rightarrow> (\<exists>a. r1 = Inr a \<and> Q (length h) h1 a b)"
    using step [OF hd_rel] by blast
  show ?case
  proof (cases "g y")
    case (Inl e)
    then show ?thesis using s1 by (simp add: ys0)
  next
    case (Inr b)
    then obtain a where a: "r1 = Inr a" "Q (length h) h1 a b" using s1(3) by auto
    have "list_all2 (R h1) xs ys"
      using tl_rel by (rule list_all2_mono) (rule mono_R [OF s1(2)])
    then obtain r2 h2 where s2: "comprehension_store f xs h1 = (r2, h2)" "prefix h1 h2"
      "case comprehension g ys of
         Inl e \<Rightarrow> r2 = Inl e
       | Inr bs \<Rightarrow> (\<exists>as. r2 = Inr as \<and> list_all2 (Q (length h1) h2) as bs)"
      using Cons.IH by blast
    have p: "prefix h h2" using s1(2) s2(2) by (rule prefix_order.trans)
    have len: "length h \<le> length h1" using s1(2) by (auto simp: prefix_def)
    show ?thesis
    proof (cases "comprehension g ys")
      case (Inl e)
      then show ?thesis using s1(1) s2 a Inr p by (simp add: ys0)
    next
      case bs: (Inr bs)
      then obtain as where as: "r2 = Inr as" "list_all2 (Q (length h1) h2) as bs"
        using s2(3) by auto
      have "list_all2 (Q (length h) h2) as bs"
        using as(2) by (rule list_all2_mono) (rule mono_Q [OF prefix_order.refl len])
      moreover have "Q (length h) h2 a b"
        by (rule mono_Q [OF s2(2) order.refl a(2)])
      ultimately show ?thesis
        using s1(1) s2(1) a as Inr bs p by (simp add: ys0)
    qed
  qed
qed

lemma created_since_mono: "n' \<le> n \<Longrightarrow> created_since n v \<Longrightarrow> created_since n' v"
  by (auto simp: created_since_def split: val.splits)

lemma fresh_floats_mono:
  assumes "prefix h h'" and "n' \<le> n" and "fresh_floats n h v"
  shows "fresh_floats n' h' v"
proof -
  obtain fs where fs: "list_at h v = Some fs" "list_all (created_since n) fs" "created_since n v"
    using assms(3) by (auto simp: fresh_floats_def split: option.splits)
  have "list_all (created_since n') fs"
    using fs(2) by (auto simp: list_all_iff intro: created_since_mono [OF assms(2)])
  then show ?thesis
    using list_at_mono [OF assms(1) fs(1)] created_since_mono [OF assms(2) fs(3)]
    by (simp add: fresh_floats_def)
qed

lemma float_of_cell_refines:
  "\<exists>r h'. float_of_cell (Str s) h = (r, h') \<and> prefix h h'
     \<and> (case py_float (str_replace s '','' ''.'') of
           Inl e \<Rightarrow> r = Inl e
         | Inr x \<Rightarrow> (\<exists>a. r = Inr a \<and> float_at h' a = Some x \<and> created_since (length h) a))"
  by (cases "py_float (str_replace s '','' ''.'')")
    (auto simp: float_of_cell_def new_def float_at_iff created_since_def)

lemma floats_of_nested_list_refines:
  assumes "strs_of h v = Some r"
  shows "\<exists>res h'. floats_of_nested_list v h = (res, h') \<and> prefix h h'
     \<and> (case comprehension (\<lambda>val. py_float (str_replace val '','' ''.'')) r of
           Inl e \<Rightarrow> res = Inl e
         | Inr fs \<Rightarrow> (\<exists>w. res = Inr w \<and> floats_of h' w = Some fs \<and> fresh_floats (length h) h' w))"
proof -
  have rel: "list_all2 (\<lambda>x y. x = Str y) (map Str r) r"
    by (simp add: list_all2_conv_all_nth)
  obtain r1 h1 where c: "comprehension_store float_of_cell (map Str r) h = (r1, h1)"
    "prefix h h1"
    "case comprehension (\<lambda>val. py_float (str_replace val '','' ''.'')) r of
       Inl e \<Rightarrow> r1 = Inl e
     | Inr fs \<Rightarrow> (\<exists>as. r1 = Inr as
         \<and> list_all2 (\<lambda>a x. float_at h1 a = Some x \<and> created_since (length h) a) as fs)"
    using comprehension_store_rel [where R = "\<lambda>h x y. x = Str y"
        and Q = "\<lambda>n h a x. float_at h a = Some x \<and> created_since n a"
        and f = float_of_cell and g = "\<lambda>val. py_float (str_replace val '','' ''.'')"
        and xs = "map Str r" and ys = r and h = h]
      float_of_cell_refines rel
    by (auto intro: float_at_mono created_since_mono)
  note it = items_strs_of [OF assms]
  show ?thesis
  proof (cases "comprehension (\<lambda>val. py_float (str_replace val '','' ''.'')) r")
    case (Inl e)
    then show ?thesis using c it by (simp add: floats_of_nested_list_def new_list_def)
  next
    case (Inr fs)
    then obtain as where as: "r1 = Inr as"
      "list_all2 (\<lambda>a x. float_at h1 a = Some x \<and> created_since (length h) a) as fs"
      using c(3) by auto
    define h2 where "h2 = h1 @ [ListObj as]"
    have p12: "prefix h1 h2" by (simp add: h2_def)
    have res: "floats_of_nested_list v h = (Inr (Ref (length h1)), h2)"
      using c(1) it as(1) by (simp add: floats_of_nested_list_def new_list_def new_def h2_def)
    have la: "list_at h2 (Ref (length h1)) = Some as" by (simp add: list_at_iff h2_def)
    have "list_all2 (\<lambda>a x. float_at h2 a = Some x) as fs"
      using as(2) by (rule list_all2_mono) (simp add: float_at_mono [OF p12])
    then have fl: "floats_of h2 (Ref (length h1)) = Some fs"
      using la by (auto simp: floats_of_iff)
    have "list_all (created_since (length h)) as"
      using as(2) by (auto simp: list_all_iff list_all2_conv_all_nth in_set_conv_nth)
    moreover have "length h \<le> length h1" using c(2) by (auto simp: prefix_def)
    ultimately have "fresh_floats (length h) h2 (Ref (length h1))"
      using la by (simp add: fresh_floats_def created_since_def)
    then show ?thesis
      using res fl Inr c(2) p12 by (auto intro: prefix_order.trans)
  qed
qed

lemma parse_data_store_refines:
  assumes "str_lists_of h cells = Some css"
  shows "\<exists>res h'. parse_data_store h cells = (res, h')
     \<and> (case parse_data css of
           Inl e \<Rightarrow> res = Inl e
         | Inr fss \<Rightarrow> (\<exists>v. res = Inr v \<and> float_lists_of h' v = Some fss
                         \<and> fresh_float_lists (length h) h' v))"
proof -
  obtain vs where vs: "list_at h cells = Some vs"
    "list_all2 (\<lambda>v r. strs_of h v = Some r) vs css"
    using assms by (auto simp: str_lists_of_iff)
  note it = items_list_at [OF vs(1)]
  obtain r1 h1 where c: "comprehension_store floats_of_nested_list vs h = (r1, h1)"
    "prefix h h1"
    "case parse_data css of
       Inl e \<Rightarrow> r1 = Inl e
     | Inr fss \<Rightarrow> (\<exists>ws. r1 = Inr ws
         \<and> list_all2 (\<lambda>w fs. floats_of h1 w = Some fs \<and> fresh_floats (length h) h1 w) ws fss)"
    using comprehension_store_rel [where R = "\<lambda>h v r. strs_of h v = Some r"
        and Q = "\<lambda>n h w fs. floats_of h w = Some fs \<and> fresh_floats n h w"
        and f = floats_of_nested_list
        and g = "\<lambda>nested. comprehension (\<lambda>val. py_float (str_replace val '','' ''.'')) nested"
        and xs = vs and ys = css and h = h]
      floats_of_nested_list_refines vs(2)
    unfolding parse_data_def
    by (auto intro: strs_of_mono floats_of_mono fresh_floats_mono)
  show ?thesis
  proof (cases "parse_data css")
    case (Inl e)
    then show ?thesis using c it by (simp add: parse_data_store_def new_list_def)
  next
    case (Inr fss)
    then obtain ws where ws: "r1 = Inr ws"
      "list_all2 (\<lambda>w fs. floats_of h1 w = Some fs \<and> fresh_floats (length h) h1 w) ws fss"
      using c(3) by auto
    define h2 where "h2 = h1 @ [ListObj ws]"
    have p12: "prefix h1 h2" by (simp add: h2_def)
    have res: "parse_data_store h cells = (Inr (Ref (length h1)), h2)"
      using c(1) it ws(1) by (simp add: parse_data_store_def new_list_def new_def h2_def)
    have la: "list_at h2 (Ref (length h1)) = Some ws" by (simp add: list_at_iff h2_def)
    have "list_all2 (\<lambda>w fs. floats_of h2 w = Some fs) ws fss"
      using ws(2) by (rule list_all2_mono) (simp add: floats_of_mono [OF p12])
    then have fl: "float_lists_of h2 (Ref (length h1)) = Some fss"
      using la by (auto simp: float_lists_of_iff)
    have "list_all (fresh_floats (length h) h2) ws"
      using ws(2) fresh_floats_mono [OF p12 order.refl]
      by (auto simp: list_all_iff list_all2_conv_all_nth in_set_conv_nth)
    moreover have "length h \<le> length h1" using c(2) by (auto simp: prefix_def)
    ultimately have "fresh_float_lists (length h) h2 (Ref (length h1))"
      using la by (simp add: fresh_float_lists_def created_since_def)
    then show ?thesis
      using res fl Inr by auto
  qed
qed

lemma to_df_store_refines:
  assumes "view h self = Some c"
  shows "\<exists>res h'. to_df_store h self = (res, h')
     \<and> (case to_df c of
           Inl e \<Rightarrow> res = Inl e
         | Inr df \<Rightarrow> (\<exists>v. res = Inr v \<and> dataframe_of h' v = Some df))"
proof (cases "get_row_titles c")
  case (Inl e)
  then show ?thesis
    using get_row_titles_store_refines [OF assms] by (simp add: to_df_def to_df_store_def)
next
  case t1: (Inr t1)
  then obtain v1 h1 where s1: "get_row_titles_store h self = (Inr v1, h1)"
    "titles_of h1 v1 = Some t1"
    using get_row_titles_store_refines [OF assms] by auto
  note p1 = prefix_get_row_titles_store [OF s1(1)]
  note view1 = view_mono [OF p1 assms]
  show ?thesis
  proof (cases "get_col_titles c")
    case (Inl e)
    then show ?thesis
      using get_col_titles_store_refines [OF view1] s1 t1
      by (simp add: to_df_def to_df_store_def)
  next
    case t2: (Inr t2)
    then obtain v2 h2 where s2: "get_col_titles_store h1 self = (Inr v2, h2)"
      "titles_of h2 v2 = Some t2"
      using get_col_titles_store_refines [OF view1] by auto
    note p2 = prefix_get_col_titles_store [OF s2(1)]
    note view2 = view_mono [OF p2 view1]
    obtain v3 h3 where s3: "get_data_per_row_without_titles_store h2 self = (Inr v3, h3)"
      "str_lists_of h3 v3 = Some (get_data_per_row_without_titles c)"
      using get_data_per_row_without_titles_store_refines [OF view2] by blast
    note p3 = prefix_get_data_per_row_without_titles_store [OF s3(1)]
    obtain r4 h4 where s4: "parse_data_store h3 v3 = (r4, h4)"
      "case parse_data (get_data_per_row_without_titles c) of
         Inl e \<Rightarrow> r4 = Inl e
       | Inr fss \<Rightarrow> (\<exists>v. r4 = Inr v \<and> float_lists_of h4 v = Some fss
                       \<and> fresh_float_lists (length h3) h4 v)"
      using parse_data_store_refines [OF s3(2)] by blast
    note p4 = prefix_parse_data_store [OF s4(1)]
    show ?thesis
    proof (cases "parse_data (get_data_per_row_without_titles c)")
      case (Inl e)
      then show ?thesis
        using s1 s2 s3 s4 t1 t2 by (simp add: to_df_def to_df_store_def)
    next
      case (Inr fss)
      then obtain v4 where v4: "r4 = Inr v4" "float_lists_of h4 v4 = Some fss"
        using s4(2) by auto
      have res: "to_df_store h self = (Inr (DataFrame v4 v1 v2), h4)"
        using s1 s2 s3 s4 v4 by (simp add: to_df_store_def)
      have "prefix h1 h4" "prefix h2 h4"
        using p2 p3 p4 by (auto intro: prefix_order.trans)
      then have "titles_of h4 v1 = Some t1" "titles_of h4 v2 = Some t2"
        using s1(2) s2(2) by (auto intro: titles_of_mono)
      then have "dataframe_of h4 (DataFrame v4 v1 v2) =
          Some \<lparr>data = fss, index = t1, columns = t2\<rparr>"
        using v4(2) by (simp add: dataframe_of_def)
      then show ?thesis
        using res t1 t2 Inr by (simp add: to_df_def)
    qed
  qed
qed

subsection \<open>Comparing results with \<open>==\<close>\<close>

lemma items_eq_True:
  "list_all2 (\<lambda>x y. is_same x y \<or> rich_eq n h x y = Some True) xs ys \<Longrightarrow>
     items_eq n h xs ys = Some True"
  by (induction rule: list_all2_induct) auto

lemma items_eq_distinct:
  "list_all2 (\<lambda>x y. \<not> is_same x y \<and> rich_eq n h x y = Some (P x)) xs ys \<Longrightarrow>
     items_eq n h xs ys = Some (list_all P xs)"
  by (induction rule: list_all2_induct) auto

lemma rich_eq_strs_of:
  assumes "strs_of h v = Some r" and "strs_of h w = Some r"
  shows "rich_eq (Suc (Suc n)) h v w = Some True"
proof -
  obtain a b where ab: "v = Ref a" "a < length h" "h ! a = ListObj (map Str r)"
    "w = Ref b" "b < length h" "h ! b = ListObj (map Str r)"
    using assms by (auto simp: strs_of_iff)
  have "list_all2 (\<lambda>x y. is_same x y \<or> rich_eq (Suc n) h x y = Some True) (map Str r) (map Str r)"
    by (simp add: list_all2_conv_all_nth)
  then show ?thesis
    using ab by (simp add: items_eq_True)
qed

lemma rich_eq_titles_of:
  assumes "titles_of h v = Some t" and "titles_of h w = Some t"
  shows "rich_eq (Suc (Suc n)) h v w = Some True"
proof (cases t)
  case None
  then have "v = NoneVal" "w = NoneVal"
    using assms by (auto simp: titles_of_def split: val.splits)
  then show ?thesis by simp
next
  case (Some ts)
  then have "strs_of h v = Some ts" "strs_of h w = Some ts"
    using assms by (auto simp: titles_of_def split: val.splits)
  then show ?thesis by (rule rich_eq_strs_of)
qed

lemma rich_eq_str_lists_of:
  assumes "str_lists_of h v = Some rs" and "str_lists_of h w = Some rs"
  shows "rich_eq (Suc (Suc (Suc n))) h v w = Some True"
proof -
  obtain vs ws where vs: "list_at h v = Some vs" "list_all2 (\<lambda>v r. strs_of h v = Some r) vs rs"
    and ws: "list_at h w = Some ws" "list_all2 (\<lambda>v r. strs_of h v = Some r) ws rs"
    using assms by (auto simp: str_lists_of_iff)
  have len: "length vs = length ws"
    using vs(2) ws(2) by (auto dest!: list_all2_lengthD)
  have "list_all2 (\<lambda>x y. is_same x y \<or> rich_eq (Suc (Suc n)) h x y = Some True) vs ws"
    unfolding list_all2_conv_all_nth
  proof (intro conjI allI impI)
    show "length vs = length ws" by (rule len)
    fix i assume i: "i < length vs"
    have "strs_of h (vs ! i) = Some (rs ! i)" "strs_of h (ws ! i) = Some (rs ! i)"
      using vs(2) ws(2) i len by (auto simp: list_all2_conv_all_nth)
    then have "rich_eq (Suc (Suc n)) h (vs ! i) (ws ! i) = Some True"
      by (rule rich_eq_strs_of)
    then show "is_same (vs ! i) (ws ! i)
        \<or> rich_eq (Suc (Suc n)) h (vs ! i) (ws ! i) = Some True"
      by (rule disjI2)
  qed
  then have "items_eq (Suc (Suc n)) h vs ws = Some True" by (rule items_eq_True)
  then show ?thesis
    using vs(1) ws(1) len by (auto simp: list_at_iff)
qed

text \<open>
  Two lists of floats of the same values, the objects of the second created after all
  those of the first: \<open>==\<close> is true exactly when none of the floats is not-a-number.
\<close>

lemma rich_eq_floats_of:
  assumes "floats_of h1 l = Some fs" and "prefix h1 h2"
    and "floats_of h2 l' = Some fs" and "fresh_floats (length h1) h2 l'"
  shows "\<not> is_same l l' \<and> rich_eq (Suc (Suc n)) h2 l l' = Some (NaN \<notin> set fs)"
proof -
  obtain b as where l: "l = Ref b" "b < length h1" "h1 ! b = ListObj as"
    "list_all2 (\<lambda>v x. float_at h1 v = Some x) as fs"
    using assms(1) by (auto simp: floats_of_iff list_at_iff)
  obtain b' as' where l': "l' = Ref b'" "b' < length h2" "h2 ! b' = ListObj as'"
    "list_all2 (\<lambda>v x. float_at h2 v = Some x) as' fs"
    using assms(3) by (auto simp: floats_of_iff list_at_iff)
  have fresh: "length h1 \<le> b'" "list_all (created_since (length h1)) as'"
    using assms(4) l' by (auto simp: fresh_floats_def created_since_def list_at_def)
  have b2: "b < length h2" "h2 ! b = ListObj as"
    using l(2,3) prefix_nth [OF assms(2)] prefix_length [OF assms(2)] by auto
  have len: "length as = length fs" "length as' = length fs"
    using l(4) l'(4) by (auto dest: list_all2_lengthD)
  have "list_all2 (\<lambda>x y. \<not> is_same x y
          \<and> rich_eq (Suc n) h2 x y = Some (float_at h2 x \<noteq> Some NaN)) as as'"
    unfolding list_all2_conv_all_nth
  proof (intro conjI allI impI)
    show "length as = length as'" using len by simp
    fix i assume i: "i < length as"
    have x: "float_at h1 (as ! i) = Some (fs ! i)" and y: "float_at h2 (as' ! i) = Some (fs ! i)"
      using l(4) l'(4) i len by (auto simp: list_all2_conv_all_nth)
    obtain c where c: "as ! i = Ref c" "c < length h1" "h1 ! c = FloatObj (fs ! i)"
      using x by (auto simp: float_at_iff)
    obtain c' where c': "as' ! i = Ref c'" "c' < length h2" "h2 ! c' = FloatObj (fs ! i)"
      using y by (auto simp: float_at_iff)
    have "created_since (length h1) (as' ! i)"
      using fresh(2) i len by (simp add: list_all_length)
    then have "length h1 \<le> c'" using c'(1) by (simp add: created_since_def)
    then show "\<not> is_same (as ! i) (as' ! i)" using c c' by (simp add: is_same_def)
    have c2: "c < length h2" "h2 ! c = FloatObj (fs ! i)"
      using c(2,3) prefix_nth [OF assms(2)] prefix_length [OF assms(2)] by auto
    show "rich_eq (Suc n) h2 (as ! i) (as' ! i) = Some (float_at h2 (as ! i) \<noteq> Some NaN)"
      using c(1) c'(1) c2 c'(2,3) by (auto simp: float_eq_def float_at_def)
  qed
  then have "items_eq (Suc n) h2 as as' = Some (list_all (\<lambda>x. float_at h2 x \<noteq> Some NaN) as)"
    by (rule items_eq_distinct)
  moreover have "list_all (\<lambda>x. float_at h2 x \<noteq> Some NaN) as \<longleftrightarrow> NaN \<notin> set fs"
  proof -
    have "float_at h2 (as ! i) = Some (fs ! i)" if "i < length fs" for i
      using l(4) that float_at_mono [OF assms(2)] by (auto simp: list_all2_conv_all_nth)
    then show ?thesis
      using len by (auto simp: list_all_length in_set_conv_nth)
  qed
  ultimately have "rich_eq (Suc (Suc n)) h2 l l' = Some (NaN \<notin> set fs)"
    using l(1) l'(1,2,3) b2 len by simp
  moreover have "\<not> is_same l l'"
    using l(1,2) l'(1) fresh(1) by (simp add: is_same_def)
  ultimately show ?thesis by simp
qed

lemma rich_eq_float_lists_of:
  assumes "float_lists_of h1 v = Some fss" and "prefix h1 h2"
    and "float_lists_of h2 w = Some fss" and "fresh_float_lists (length h1) h2 w"
  shows "rich_eq (Suc (Suc (Suc n))) h2 v w = Some (NaN \<notin> set (concat fss))"
proof -
  obtain b ls where v: "v = Ref b" "b < length h1" "h1 ! b = ListObj ls"
    "list_all2 (\<lambda>l fs. floats_of h1 l = Some fs) ls fss"
    using assms(1) by (auto simp: float_lists_of_iff list_at_iff)
  obtain b' ls' where w: "w = Ref b'" "b' < length h2" "h2 ! b' = ListObj ls'"
    "list_all2 (\<lambda>l fs. floats_of h2 l = Some fs) ls' fss"
    using assms(3) by (auto simp: float_lists_of_iff list_at_iff)
  have fresh: "list_all (fresh_floats (length h1) h2) ls'"
    using assms(4) w by (auto simp: fresh_float_lists_def list_at_def)
  have b2: "b < length h2" "h2 ! b = ListObj ls"
    using v(2,3) prefix_nth [OF assms(2)] prefix_length [OF assms(2)] by auto
  have len: "length ls = length fss" "length ls' = length fss"
    using v(4) w(4) by (auto dest: list_all2_lengthD)
  have "list_all2 (\<lambda>x y. \<not> is_same x y
          \<and> rich_eq (Suc (Suc n)) h2 x y
              = Some (\<exists>fs. floats_of h2 x = Some fs \<and> NaN \<notin> set fs)) ls ls'"
    unfolding list_all2_conv_all_nth
  proof (intro conjI allI impI)
    show "length ls = length ls'" using len by simp
    fix i assume i: "i < length ls"
    have x: "floats_of h1 (ls ! i) = Some (fss ! i)"
      and y: "floats_of h2 (ls' ! i) = Some (fss ! i)"
      using v(4) w(4) i len by (auto simp: list_all2_conv_all_nth)
    have f: "fresh_floats (length h1) h2 (ls' ! i)"
      using fresh i len by (simp add: list_all_length)
    note r = rich_eq_floats_of [OF x assms(2) y f, of n]
    show "\<not> is_same (ls ! i) (ls' ! i)" using r by simp
    show "rich_eq (Suc (Suc n)) h2 (ls ! i) (ls' ! i)
        = Some (\<exists>fs. floats_of h2 (ls ! i) = Some fs \<and> NaN \<notin> set fs)"
      using r floats_of_mono [OF assms(2) x] by simp
  qed
  then have "items_eq (Suc (Suc n)) h2 ls ls'
      = Some (list_all (\<lambda>x. \<exists>fs. floats_of h2 x = Some fs \<and> NaN \<notin> set fs) ls)"
    by (rule items_eq_distinct)
  moreover have "list_all (\<lambda>x. \<exists>fs. floats_of h2 x = Some fs \<and> NaN \<notin> set fs) ls
      \<longleftrightarrow> NaN \<notin> set (concat fss)"
  proof -
    have "floats_of h2 (ls ! i) = Some (fss ! i)" if "i < length fss" for i
      using v(4) that floats_of_mono [OF assms(2)] by (auto simp: list_all2_conv_all_nth)
    then have "list_all (\<lambda>x. \<exists>fs. floats_of h2 x = Some fs \<and> NaN \<notin> set fs) ls
        \<longleftrightarrow> (\<forall>i<length fss. NaN \<notin> set (fss ! i))"
      using len by (auto simp: list_all_length)
    also have "\<dots> \<longleftrightarrow> (\<forall>fs\<in>set fss. NaN \<notin> set fs)"
      by (simp add: all_set_conv_all_nth)
    also have "\<dots> \<longleftrightarrow> NaN \<notin> set (concat fss)" by auto
    finally show ?thesis .
  qed
  ultimately show ?thesis
    using v(1) w(1,2,3) b2 len by simp
qed

subsection \<open>The instance in the store after construction\<close>

lemma store_each_reads:
  "store_each h xss = (vs, h') \<Longrightarrow>
     prefix h h' \<and> list_all2 (\<lambda>v r. strs_of h' v = Some r) vs xss"
proof (induction xss arbitrary: h vs h')
  case Nil
  then show ?case by simp
next
  case (Cons xs xss)
  define h1 where "h1 = h @ [ListObj (map Str xs)]"
  obtain vs' h2 where s: "store_each h1 xss = (vs', h2)" by (cases "store_each h1 xss")
  have r: "vs = Ref (length h) # vs'" "h' = h2"
    using Cons.prems s by (simp_all add: new_def h1_def)
  have ih: "prefix h1 h2" "list_all2 (\<lambda>v r. strs_of h2 v = Some r) vs' xss"
    using Cons.IH [OF s] by simp_all
  have "strs_of h1 (Ref (length h)) = Some xs" by (simp add: strs_of_iff h1_def)
  then have "strs_of h2 (Ref (length h)) = Some xs" by (rule strs_of_mono [OF ih(1)])
  moreover have "prefix h h1" by (simp add: h1_def)
  ultimately show ?case
    using r ih by (auto intro: prefix_order.trans)
qed

lemma store_lists_reads:
  assumes "store_lists h xss = (v, h')"
  shows "prefix h h' \<and> str_lists_of h' v = Some xss"
proof -
  obtain vs h1 where s: "store_each h xss = (vs, h1)" by (cases "store_each h xss")
  have r: "v = Ref (length h1)" "h' = h1 @ [ListObj vs]"
    using assms s by (simp_all add: store_lists_def new_def)
  note e = store_each_reads [OF s]
  have p: "prefix h1 h'" by (simp add: r)
  have "list_all2 (\<lambda>v r. strs_of h' v = Some r) vs xss"
    using e by (auto intro: list_all2_mono strs_of_mono [OF p])
  then have "str_lists_of h' v = Some xss"
    by (auto simp: str_lists_of_iff list_at_iff r)
  then show ?thesis using e p by (auto intro: prefix_order.trans)
qed

lemma CSV_init_store_view:
  assumes "CSV_init_store h0 ls s rt ct = (Inr self, h)"
  shows "\<exists>c. CSV_init ls s rt ct = Inr c \<and> view h self = Some c"
proof -
  obtain c where c: "CSV_init ls s rt ct = Inr c"
    using assms by (cases "CSV_init ls s rt ct") (auto simp: CSV_init_store_def)
  obtain rs h1 where s1: "store_lists h0 (rows c) = (rs, h1)" by (cases "store_lists h0 (rows c)")
  obtain cs h2 where s2: "store_lists h1 (cols c) = (cs, h2)" by (cases "store_lists h1 (cols c)")
  define attrs where "attrs = \<lparr>self_sep = sep c, self_rows = rs,
      self_length_of_rows = length_of_rows c, self_cols = cs,
      self_length_of_cols = length_of_cols c,
      self_row_titles = row_titles c, self_col_titles = col_titles c\<rparr>"
  have r: "self = Ref (length h2)" "h = h2 @ [InstanceObj attrs]"
    using assms c s1 s2 by (simp_all add: CSV_init_store_def new_def attrs_def)
  note r1 = store_lists_reads [OF s1] and r2 = store_lists_reads [OF s2]
  have p: "prefix h2 h" "prefix h1 h" using r r2 by (auto intro: prefix_order.trans)
  have "str_lists_of h rs = Some (rows c)" "str_lists_of h cs = Some (cols c)"
    using r1 r2 p by (auto intro: str_lists_of_mono)
  moreover have "attributes_of h self = Inr attrs" by (simp add: attributes_of_iff r)
  ultimately have "view h self = Some c"
    unfolding view_iff by (auto simp: attrs_def)
  then show ?thesis using c by simp
qed

text \<open>On an instance that \<open>__init__\<close> built, the title accessors return.\<close>

lemma titles_of_constructed:
  assumes "CSV_init ls s rt ct = Inr c"
  shows "\<exists>t. get_row_titles c = Inr t" and "\<exists>t. get_col_titles c = Inr t"
proof -
  have "\<forall>row\<in>set (rows c). row \<noteq> []" using CSV_init_Inr(2) [OF assms] by simp
  then show "\<exists>t. get_row_titles c = Inr t" by (simp add: get_row_titles_eq)
  show "\<exists>t. get_col_titles c = Inr t"
    by (simp add: get_col_titles_eq [OF CSV_init_cols_nonempty [OF assms]])
qed

text \<open>Without titles the data accessors return the list the attribute refers to.\<close>

lemma data_rows_alias:
  assumes "attributes_of h self = Inr attrs"
    and "\<not> self_row_titles attrs" and "\<not> self_col_titles attrs"
  shows "fst (get_data_per_row_without_titles_store h self) = Inr (self_rows attrs)"
proof -
  have "attributes_of (h @ [ListObj []]) self = Inr attrs"
    by (rule attributes_of_mono [OF _ assms(1)]) simp
  then show ?thesis
    using assms(2,3) by (simp add: get_data_per_row_without_titles_store_def new_def)
qed

lemma data_cols_alias:
  assumes "attributes_of h self = Inr attrs"
    and "\<not> self_row_titles attrs" and "\<not> self_col_titles attrs"
  shows "fst (get_data_per_col_without_titles_store h self) = Inr (self_cols attrs)"
proof -
  have "attributes_of (h @ [ListObj []]) self = Inr attrs"
    by (rule attributes_of_mono [OF _ assms(1)]) simp
  then show ?thesis
    using assms(2,3) by (simp add: get_data_per_col_without_titles_store_def new_def)
qed

subsection \<open>The examples in the store\<close>

lemma CSV_init_store_both_titles:
  "CSV_init_store [] [''t,c1,c2'', ''r1,1,2'', ''r2,3,4''] '','' True True =
     (Inr (Ref 8), both_titles_store)"
  unfolding both_titles_store_def by code_simp

lemma calls_both_titles:
  "calls both_titles_store (Ref 8) [Get_col_titles] =
     ([Inr (Val (Ref 9))], both_titles_store @ [ListObj [Str ''c1'', Str ''c2'']])"
  unfolding both_titles_store_def by code_simp

lemma call_both_titles_first:
  "call (both_titles_store @ [ListObj [Str ''c1'', Str ''c2'']]) (Ref 8)
       Get_data_per_row_without_titles =
     (Inr (Val (Ref 10)),
      both_titles_store @ [ListObj [Str ''c1'', Str ''c2''],
        ListObj [Ref 11, Ref 12], ListObj [Str ''1'', Str ''2''], ListObj [Str ''3'', Str ''4'']])"
  unfolding both_titles_store_def by code_simp

lemma call_both_titles_second:
  "call (both_titles_store @ [ListObj [Str ''c1'', Str ''c2''],
           ListObj [Ref 11, Ref 12], ListObj [Str ''1'', Str ''2''], ListObj [Str ''3'', Str ''4'']])
       (Ref 8) Get_data_per_row_without_titles =
     (Inr (Val (Ref 13)),
      both_titles_store @ [ListObj [Str ''c1'', Str ''c2''],
        ListObj [Ref 11, Ref 12], ListObj [Str ''1'', Str ''2''], ListObj [Str ''3'', Str ''4''],
        ListObj [Ref 14, Ref 15], ListObj [Str ''1'', Str ''2''], ListObj [Str ''3'', Str ''4'']])"
  unfolding both_titles_store_def by code_simp

lemma CSV_init_store_nan:
  "CSV_init_store [] [''nan''] '','' False False = (Inr (Ref 4), nan_store)"
  unfolding nan_store_def by code_simp

lemma rows_of_nan_store: "str_lists_of nan_store (Ref 1) = Some [[''nan'']]"
  unfolding nan_store_def by code_simp

lemma call_nan_first:
  "call nan_store (Ref 4) (Parse_data (Ref 1)) =
     (Inr (Val (Ref 7)), nan_store @ [FloatObj NaN, ListObj [Ref 5], ListObj [Ref 6]])"
  unfolding nan_store_def by code_simp

lemma call_nan_second:
  "call (nan_store @ [FloatObj NaN, ListObj [Ref 5], ListObj [Ref 6]]) (Ref 4)
       (Parse_data (Ref 1)) =
     (Inr (Val (Ref 10)),
      nan_store @ [FloatObj NaN, ListObj [Ref 5], ListObj [Ref 6],
        FloatObj NaN, ListObj [Ref 8], ListObj [Ref 9]])"
  unfolding nan_store_def by code_simp

lemma parse_data_nan: "parse_data [[''nan'']] = Inr [[NaN]]"
  by code_simp

subsection \<open>The operations after construction\<close>

text \<open>
  C8 as it is stated fails for \<open>parse_data\<close>: on the instance read from the one line
  \<open>nan\<close> without titles, two calls of \<open>parse_data\<close> with the argument \<open>self.rows\<close> return
  two lists of one list of one NaN each, and these are not equal under \<open>==\<close>: every call
  creates its own \<open>float\<close> objects, and a NaN equals no other object.
\<close>

theorem C8_operations_leave_store_unchanged_counterexample:
  "CSV_init_store [] [''nan''] '','' False False = (Inr (Ref 4), nan_store)
   \<and> str_lists_of nan_store (Ref 1) = Some [[''nan'']]
   \<and> call nan_store (Ref 4) (Parse_data (Ref 1)) =
       (Inr (Val (Ref 7)), nan_store @ [FloatObj NaN, ListObj [Ref 5], ListObj [Ref 6]])
   \<and> call (nan_store @ [FloatObj NaN, ListObj [Ref 5], ListObj [Ref 6]]) (Ref 4)
         (Parse_data (Ref 1)) =
       (Inr (Val (Ref 10)),
        nan_store @ [FloatObj NaN, ListObj [Ref 5], ListObj [Ref 6],
          FloatObj NaN, ListObj [Ref 8], ListObj [Ref 9]])
   \<and> rich_eq 3
        (nan_store @ [FloatObj NaN, ListObj [Ref 5], ListObj [Ref 6],
           FloatObj NaN, ListObj [Ref 8], ListObj [Ref 9]])
        (Ref 7) (Ref 10) = Some False"
proof -
  have "rich_eq 3
        (nan_store @ [FloatObj NaN, ListObj [Ref 5], ListObj [Ref 6],
           FloatObj NaN, ListObj [Ref 8], ListObj [Ref 9]])
        (Ref 7) (Ref 10) = Some False"
    unfolding nan_store_def by code_simp
  then show ?thesis
    using CSV_init_store_nan rows_of_nan_store call_nan_first call_nan_second by simp
qed

text \<open>
  C8, amended: let an instance be constructed in any store, let any sequence of the six
  operations be called on it with any arguments, and then let one operation be called
  twice. Every object that existed before a call is left as it was by the call (the store
  of before is an initial part of the store of after), and the instance reads as the same
  rows, columns, lengths, separator and flags after construction and after each call. The
  two calls return results of the same values. For \<open>get_row_titles\<close>,
  \<open>get_col_titles\<close>, \<open>get_data_per_row_without_titles\<close> and
  \<open>get_data_per_col_without_titles\<close> the two results are equal under \<open>==\<close>; without
  titles the last two return the very list \<open>self.rows\<close> or \<open>self.cols\<close> refers to. For
  \<open>parse_data\<close> on a list of lists of strings both calls raise the same exception or
  return lists of the same floats, and these are equal under \<open>==\<close> exactly when no cell
  is parsed to NaN. For \<open>to_df\<close> both calls raise the same exception or call
  \<open>pd.DataFrame\<close> with arguments of the same values.
\<close>

theorem C8_operations_leave_store_unchanged:
  assumes "CSV_init_store h0 file_lines seperator has_row_titles has_col_titles = (Inr self, h)"
    and "calls h self ops = (results, h1)"
    and "call h1 self op = (r, h2)"
    and "call h2 self op = (r', h3)"
  shows "take (length h) h1 = h \<and> take (length h1) h2 = h1 \<and> take (length h2) h3 = h2
       \<and> (\<exists>c. CSV_init file_lines seperator has_row_titles has_col_titles = Inr c
            \<and> view h self = Some c \<and> view h1 self = Some c
            \<and> view h2 self = Some c \<and> view h3 self = Some c
            \<and> (op = Get_row_titles \<longrightarrow>
                 (\<exists>v v' t. r = Inr (Val v) \<and> r' = Inr (Val v') \<and> get_row_titles c = Inr t
                    \<and> titles_of h3 v = Some t \<and> titles_of h3 v' = Some t
                    \<and> rich_eq (Suc (Suc (Suc n))) h3 v v' = Some True))
            \<and> (op = Get_col_titles \<longrightarrow>
                 (\<exists>v v' t. r = Inr (Val v) \<and> r' = Inr (Val v') \<and> get_col_titles c = Inr t
                    \<and> titles_of h3 v = Some t \<and> titles_of h3 v' = Some t
                    \<and> rich_eq (Suc (Suc (Suc n))) h3 v v' = Some True))
            \<and> (op = Get_data_per_row_without_titles \<longrightarrow>
                 (\<exists>v v'. r = Inr (Val v) \<and> r' = Inr (Val v')
                    \<and> str_lists_of h3 v = Some (get_data_per_row_without_titles c)
                    \<and> str_lists_of h3 v' = Some (get_data_per_row_without_titles c)
                    \<and> rich_eq (Suc (Suc (Suc n))) h3 v v' = Some True))
            \<and> (op = Get_data_per_col_without_titles \<longrightarrow>
                 (\<exists>v v'. r = Inr (Val v) \<and> r' = Inr (Val v')
                    \<and> str_lists_of h3 v = Some (get_data_per_col_without_titles c)
                    \<and> str_lists_of h3 v' = Some (get_data_per_col_without_titles c)
                    \<and> rich_eq (Suc (Suc (Suc n))) h3 v v' = Some True))
            \<and> (op = Get_data_per_row_without_titles \<and> \<not> has_row_titles \<and> \<not> has_col_titles \<longrightarrow>
                 (\<exists>attrs. attributes_of h self = Inr attrs
                    \<and> r = Inr (Val (self_rows attrs)) \<and> r' = Inr (Val (self_rows attrs))))
            \<and> (op = Get_data_per_col_without_titles \<and> \<not> has_row_titles \<and> \<not> has_col_titles \<longrightarrow>
                 (\<exists>attrs. attributes_of h self = Inr attrs
                    \<and> r = Inr (Val (self_cols attrs)) \<and> r' = Inr (Val (self_cols attrs))))
            \<and> (\<forall>cells css. op = Parse_data cells \<and> str_lists_of h1 cells = Some css \<longrightarrow>
                 (case parse_data css of
                    Inl e \<Rightarrow> r = Inl e \<and> r' = Inl e
                  | Inr fss \<Rightarrow>
                      (\<exists>v v'. r = Inr (Val v) \<and> r' = Inr (Val v')
                         \<and> float_lists_of h3 v = Some fss \<and> float_lists_of h3 v' = Some fss
                         \<and> rich_eq (Suc (Suc (Suc n))) h3 v v'
                             = Some (NaN \<notin> set (concat fss)))))
            \<and> (op = To_df \<longrightarrow>
                 (case to_df c of
                    Inl e \<Rightarrow> r = Inl e \<and> r' = Inl e
                  | Inr df \<Rightarrow>
                      (\<exists>d d'. r = Inr d \<and> r' = Inr d'
                         \<and> dataframe_of h3 d = Some df \<and> dataframe_of h3 d' = Some df))))"
proof -
  obtain c where c: "CSV_init file_lines seperator has_row_titles has_col_titles = Inr c"
    "view h self = Some c"
    using CSV_init_store_view [OF assms(1)] by blast
  note p1 = prefix_calls [OF assms(2)]
  note p2 = prefix_call [OF assms(3)]
  note p3 = prefix_call [OF assms(4)]
  note view1 = view_mono [OF p1 c(2)]
  note view2 = view_mono [OF p2 view1]
  note view3 = view_mono [OF p3 view2]
  have frame: "take (length h) h1 = h \<and> take (length h1) h2 = h1 \<and> take (length h2) h3 = h2"
    using p1 p2 p3 by (simp add: prefix_take)
  have row_titles_case: "\<exists>v v' t. r = Inr (Val v) \<and> r' = Inr (Val v') \<and> get_row_titles c = Inr t
      \<and> titles_of h3 v = Some t \<and> titles_of h3 v' = Some t
      \<and> rich_eq (Suc (Suc (Suc n))) h3 v v' = Some True"
    if op: "op = Get_row_titles"
  proof -
    obtain t where t: "get_row_titles c = Inr t" using titles_of_constructed(1) [OF c(1)] by blast
    obtain v where v: "r = Inr (Val v)" "titles_of h2 v = Some t"
      using get_row_titles_store_refines [OF view1] assms(3) t op by (auto simp: returned_iff)
    obtain v' where v': "r' = Inr (Val v')" "titles_of h3 v' = Some t"
      using get_row_titles_store_refines [OF view2] assms(4) t op by (auto simp: returned_iff)
    note tv = titles_of_mono [OF p3 v(2)]
    show ?thesis using v(1) v' t tv rich_eq_titles_of [OF tv v'(2)] by blast
  qed
  have col_titles_case: "\<exists>v v' t. r = Inr (Val v) \<and> r' = Inr (Val v') \<and> get_col_titles c = Inr t
      \<and> titles_of h3 v = Some t \<and> titles_of h3 v' = Some t
      \<and> rich_eq (Suc (Suc (Suc n))) h3 v v' = Some True"
    if op: "op = Get_col_titles"
  proof -
    obtain t where t: "get_col_titles c = Inr t" using titles_of_constructed(2) [OF c(1)] by blast
    obtain v where v: "r = Inr (Val v)" "titles_of h2 v = Some t"
      using get_col_titles_store_refines [OF view1] assms(3) t op by (auto simp: returned_iff)
    obtain v' where v': "r' = Inr (Val v')" "titles_of h3 v' = Some t"
      using get_col_titles_store_refines [OF view2] assms(4) t op by (auto simp: returned_iff)
    note tv = titles_of_mono [OF p3 v(2)]
    show ?thesis using v(1) v' t tv rich_eq_titles_of [OF tv v'(2)] by blast
  qed
  have data_rows_case: "\<exists>v v'. r = Inr (Val v) \<and> r' = Inr (Val v')
      \<and> str_lists_of h3 v = Some (get_data_per_row_without_titles c)
      \<and> str_lists_of h3 v' = Some (get_data_per_row_without_titles c)
      \<and> rich_eq (Suc (Suc (Suc n))) h3 v v' = Some True"
    if op: "op = Get_data_per_row_without_titles"
  proof -
    obtain v where v: "r = Inr (Val v)" "str_lists_of h2 v = Some (get_data_per_row_without_titles c)"
      using get_data_per_row_without_titles_store_refines [OF view1] assms(3) op by (auto simp: returned_iff)
    obtain v' where v': "r' = Inr (Val v')"
      "str_lists_of h3 v' = Some (get_data_per_row_without_titles c)"
      using get_data_per_row_without_titles_store_refines [OF view2] assms(4) op by (auto simp: returned_iff)
    note tv = str_lists_of_mono [OF p3 v(2)]
    show ?thesis using v(1) v' tv rich_eq_str_lists_of [OF tv v'(2)] by blast
  qed
  have data_cols_case: "\<exists>v v'. r = Inr (Val v) \<and> r' = Inr (Val v')
      \<and> str_lists_of h3 v = Some (get_data_per_col_without_titles c)
      \<and> str_lists_of h3 v' = Some (get_data_per_col_without_titles c)
      \<and> rich_eq (Suc (Suc (Suc n))) h3 v v' = Some True"
    if op: "op = Get_data_per_col_without_titles"
  proof -
    obtain v where v: "r = Inr (Val v)" "str_lists_of h2 v = Some (get_data_per_col_without_titles c)"
      using get_data_per_col_without_titles_store_refines [OF view1] assms(3) op by (auto simp: returned_iff)
    obtain v' where v': "r' = Inr (Val v')"
      "str_lists_of h3 v' = Some (get_data_per_col_without_titles c)"
      using get_data_per_col_without_titles_store_refines [OF view2] assms(4) op by (auto simp: returned_iff)
    note tv = str_lists_of_mono [OF p3 v(2)]
    show ?thesis using v(1) v' tv rich_eq_str_lists_of [OF tv v'(2)] by blast
  qed
  have flags: "row_titles c = has_row_titles" "col_titles c = has_col_titles"
    using CSV_init_Inr(6,7) [OF c(1)] by simp_all
  obtain attrs where attrs: "attributes_of h self = Inr attrs"
    "self_row_titles attrs = row_titles c" "self_col_titles attrs = col_titles c"
    using c(2) unfolding view_iff by blast
  have attrs12: "attributes_of h1 self = Inr attrs" "attributes_of h2 self = Inr attrs"
    using attributes_of_mono [OF p1 attrs(1)] attributes_of_mono [OF p2] by simp_all
  have alias_rows: "\<exists>attrs. attributes_of h self = Inr attrs
      \<and> r = Inr (Val (self_rows attrs)) \<and> r' = Inr (Val (self_rows attrs))"
    if "op = Get_data_per_row_without_titles" "\<not> has_row_titles" "\<not> has_col_titles"
    using that assms(3,4) attrs flags data_rows_alias [OF attrs12(1)]
      data_rows_alias [OF attrs12(2)]
    by (auto simp: returned_iff)
  have alias_cols: "\<exists>attrs. attributes_of h self = Inr attrs
      \<and> r = Inr (Val (self_cols attrs)) \<and> r' = Inr (Val (self_cols attrs))"
    if "op = Get_data_per_col_without_titles" "\<not> has_row_titles" "\<not> has_col_titles"
    using that assms(3,4) attrs flags data_cols_alias [OF attrs12(1)]
      data_cols_alias [OF attrs12(2)]
    by (auto simp: returned_iff)
  have parse_case: "case parse_data css of
        Inl e \<Rightarrow> r = Inl e \<and> r' = Inl e
      | Inr fss \<Rightarrow>
          (\<exists>v v'. r = Inr (Val v) \<and> r' = Inr (Val v')
             \<and> float_lists_of h3 v = Some fss \<and> float_lists_of h3 v' = Some fss
             \<and> rich_eq (Suc (Suc (Suc n))) h3 v v' = Some (NaN \<notin> set (concat fss)))"
    if op: "op = Parse_data cells" and cells: "str_lists_of h1 cells = Some css" for cells css
  proof -
    note cells2 = str_lists_of_mono [OF p2 cells]
    note f1 = parse_data_store_refines [OF cells]
    note f2 = parse_data_store_refines [OF cells2]
    show ?thesis
    proof (cases "parse_data css")
      case (Inl e)
      then show ?thesis using f1 f2 assms(3,4) op by (auto simp: returned_iff)
    next
      case (Inr fss)
      obtain v where v: "r = Inr (Val v)" "float_lists_of h2 v = Some fss"
        using f1 assms(3) op Inr by (auto simp: returned_iff)
      obtain v' where v': "r' = Inr (Val v')" "float_lists_of h3 v' = Some fss"
        "fresh_float_lists (length h2) h3 v'"
        using f2 assms(4) op Inr by (auto simp: returned_iff)
      show ?thesis
        using Inr v(1) v'(1,2) float_lists_of_mono [OF p3 v(2)]
          rich_eq_float_lists_of [OF v(2) p3 v'(2,3)]
        by auto
    qed
  qed
  have to_df_case: "case to_df c of
        Inl e \<Rightarrow> r = Inl e \<and> r' = Inl e
      | Inr df \<Rightarrow>
          (\<exists>d d'. r = Inr d \<and> r' = Inr d'
             \<and> dataframe_of h3 d = Some df \<and> dataframe_of h3 d' = Some df)"
    if op: "op = To_df"
  proof -
    note f1 = to_df_store_refines [OF view1]
    note f2 = to_df_store_refines [OF view2]
    show ?thesis
    proof (cases "to_df c")
      case (Inl e)
      then show ?thesis using f1 f2 assms(3,4) op by auto
    next
      case (Inr df)
      obtain d where d: "r = Inr d" "dataframe_of h2 d = Some df"
        using f1 assms(3) op Inr by auto
      obtain d' where d': "r' = Inr d'" "dataframe_of h3 d' = Some df"
        using f2 assms(4) op Inr by auto
      show ?thesis
        using Inr d(1) d' dataframe_of_mono [OF p3 d(2)] by auto
    qed
  qed
  show ?thesis
    using frame c view1 view2 view3 row_titles_case col_titles_case data_rows_case
      data_cols_case alias_rows alias_cols parse_case to_df_case
    by blast
qed

theorem C8_operations_leave_store_unchanged_witness:
  "CSV_init_store [] [''t,c1,c2'', ''r1,1,2'', ''r2,3,4''] '','' True True =
     (Inr (Ref 8), both_titles_store)
   \<and> calls both_titles_store (Ref 8) [Get_col_titles] =
       ([Inr (Val (Ref 9))], both_titles_store @ [ListObj [Str ''c1'', Str ''c2'']])
   \<and> call (both_titles_store @ [ListObj [Str ''c1'', Str ''c2'']]) (Ref 8)
         Get_data_per_row_without_titles =
       (Inr (Val (Ref 10)),
        both_titles_store @ [ListObj [Str ''c1'', Str ''c2''],
          ListObj [Ref 11, Ref 12], ListObj [Str ''1'', Str ''2''], ListObj [Str ''3'', Str ''4'']])
   \<and> call (both_titles_store @ [ListObj [Str ''c1'', Str ''c2''],
             ListObj [Ref 11, Ref 12], ListObj [Str ''1'', Str ''2''], ListObj [Str ''3'', Str ''4'']])
         (Ref 8) Get_data_per_row_without_titles =
       (Inr (Val (Ref 13)),
        both_titles_store @ [ListObj [Str ''c1'', Str ''c2''],
          ListObj [Ref 11, Ref 12], ListObj [Str ''1'', Str ''2''], ListObj [Str ''3'', Str ''4''],
          ListObj [Ref 14, Ref 15], ListObj [Str ''1'', Str ''2''], ListObj [Str ''3'', Str ''4'']])
   \<and> view (both_titles_store @ [ListObj [Str ''c1'', Str ''c2''],
             ListObj [Ref 11, Ref 12], ListObj [Str ''1'', Str ''2''], ListObj [Str ''3'', Str ''4''],
             ListObj [Ref 14, Ref 15], ListObj [Str ''1'', Str ''2''], ListObj [Str ''3'', Str ''4'']])
         (Ref 8) = Some both_titles
   \<and> rich_eq 3
        (both_titles_store @ [ListObj [Str ''c1'', Str ''c2''],
           ListObj [Ref 11, Ref 12], ListObj [Str ''1'', Str ''2''], ListObj [Str ''3'', Str ''4''],
           ListObj [Ref 14, Ref 15], ListObj [Str ''1'', Str ''2''], ListObj [Str ''3'', Str ''4'']])
        (Ref 10) (Ref 13) = Some True
   \<and> CSV_init_store [] [''nan''] '','' False False = (Inr (Ref 4), nan_store)
   \<and> str_lists_of nan_store (Ref 1) = Some [[''nan'']]
   \<and> parse_data [[''nan'']] = Inr [[NaN]]
   \<and> float_lists_of
        (nan_store @ [FloatObj NaN, ListObj [Ref 5], ListObj [Ref 6],
           FloatObj NaN, ListObj [Ref 8], ListObj [Ref 9]]) (Ref 10) = Some [[NaN]]"
proof -
  have e: "calls nan_store (Ref 4) [] = ([], nan_store)" by simp
  note a = C8_operations_leave_store_unchanged [OF CSV_init_store_both_titles calls_both_titles
      call_both_titles_first call_both_titles_second, of 0]
  note b = C8_operations_leave_store_unchanged [OF CSV_init_store_nan e
      call_nan_first call_nan_second, of 0]
  have "view (both_titles_store @ [ListObj [Str ''c1'', Str ''c2''],
             ListObj [Ref 11, Ref 12], ListObj [Str ''1'', Str ''2''], ListObj [Str ''3'', Str ''4''],
             ListObj [Ref 14, Ref 15], ListObj [Str ''1'', Str ''2''], ListObj [Str ''3'', Str ''4'']])
         (Ref 8) = Some both_titles"
    using a CSV_init_both_titles by auto
  moreover have "rich_eq 3
        (both_titles_store @ [ListObj [Str ''c1'', Str ''c2''],
           ListObj [Ref 11, Ref 12], ListObj [Str ''1'', Str ''2''], ListObj [Str ''3'', Str ''4''],
           ListObj [Ref 14, Ref 15], ListObj [Str ''1'', Str ''2''], ListObj [Str ''3'', Str ''4'']])
        (Ref 10) (Ref 13) = Some True"
    using a by (auto simp add: numeral_3_eq_3 simp del: rich_eq.simps items_eq.simps)
  moreover have "float_lists_of
        (nan_store @ [FloatObj NaN, ListObj [Ref 5], ListObj [Ref 6],
           FloatObj NaN, ListObj [Ref 8], ListObj [Ref 9]]) (Ref 10) = Some [[NaN]]"
    using b rows_of_nan_store parse_data_nan by auto
  ultimately show ?thesis
    using CSV_init_store_both_titles calls_both_titles call_both_titles_first
      call_both_titles_second CSV_init_store_nan rows_of_nan_store parse_data_nan
    by simp
qed

end
